theory Spec2Isabelle
  imports Main
begin

section \<open>JavaScript strings\<close>

text \<open>
  A JavaScript string is a sequence of UTF-16 code units: \<open>length\<close>, \<open>substring\<close>,
  \<open>includes\<close> and \<open>trim\<close> all work on code units. A string is modelled as the list
  of its code units, each a natural number below 65536. \<open>js\<close> writes an ASCII literal.
\<close>

type_synonym jsstring = "nat list"

definition js :: "string \<Rightarrow> jsstring" where
  "js s = map of_char s"

text \<open>\<open>s.startsWith(m)\<close> and \<open>s.includes(m)\<close>; every string includes the empty one.\<close>

definition startsWith :: "jsstring \<Rightarrow> jsstring \<Rightarrow> bool" where
  "startsWith s m = (take (length m) s = m)"

fun str_includes :: "jsstring \<Rightarrow> jsstring \<Rightarrow> bool" where
  "str_includes [] m = (m = [])"
| "str_includes (c # s) m = (startsWith (c # s) m \<or> str_includes s m)"

text \<open>
  \<open>s.trim()\<close> strips the code units of ECMAScript's WhiteSpace and LineTerminator
  productions from both ends.
\<close>

definition isWhiteSpace :: "nat \<Rightarrow> bool" where
  "isWhiteSpace c =
     (c \<in> set [9, 10, 11, 12, 13, 32, 160, 5760, 8232, 8233, 8239, 8287, 12288, 65279]
      \<or> (8192 \<le> c \<and> c \<le> 8202))"

definition trim :: "jsstring \<Rightarrow> jsstring" where
  "trim s = rev (dropWhile isWhiteSpace (rev (dropWhile isWhiteSpace s)))"

text \<open>
  \<open>content.split('\n')\<close>: code unit 10 separates. The result is never empty, so the
  case of an empty list of lines for the rest of the text is never taken.
\<close>

fun split_lines :: "jsstring \<Rightarrow> jsstring list" where
  "split_lines [] = [[]]"
| "split_lines (c # s) =
     (if c = 10 then [] # split_lines s
      else (case split_lines s of [] \<Rightarrow> [[c]] | l # ls \<Rightarrow> (c # l) # ls))"

text \<open>\<open>lines.join('\n')\<close>.\<close>

fun join_lines :: "jsstring list \<Rightarrow> jsstring" where
  "join_lines [] = []"
| "join_lines [l] = l"
| "join_lines (l # ls) = l @ 10 # join_lines ls"

text \<open>A number inside a template literal: its decimal digits.\<close>

function decimal :: "nat \<Rightarrow> jsstring" where
  "decimal n = (if n < 10 then [48 + n] else decimal (n div 10) @ [48 + n mod 10])"
  by pat_completeness auto
termination
  by (relation "measure id") auto

declare decimal.simps [simp del]

text \<open>
  \<open>xs.splice(start, deleteCount, ...items)\<close> with non-negative arguments: the result
  array. JavaScript clamps \<open>start\<close> and \<open>deleteCount\<close> to the array, as \<open>take\<close> and
  \<open>drop\<close> do.
\<close>

definition splice :: "'a list \<Rightarrow> nat \<Rightarrow> nat \<Rightarrow> 'a list \<Rightarrow> 'a list" where
  "splice xs start deleteCount items = take start xs @ items @ drop (start + deleteCount) xs"


section \<open>Configuration and data\<close>

text \<open>\<open>this.config.protected_blocks\<close>: the two marker lists.\<close>

record protected_blocks =
  start_markers :: "jsstring list"
  end_markers :: "jsstring list"

text \<open>\<open>markers.some(marker => line.includes(marker))\<close>.\<close>

definition some_includes :: "jsstring list \<Rightarrow> jsstring \<Rightarrow> bool" where
  "some_includes markers line = list_ex (\<lambda>marker. str_includes line marker) markers"

text \<open>
  A block object \<open>{start, end, content}\<close> of \<open>extractProtectedBlocks\<close>; \<open>start\<close> and
  \<open>end\<close> are indices into the array of lines (from 0).
\<close>

record block =
  b_start :: nat
  b_end :: nat
  b_content :: jsstring

text \<open>A warning object \<open>{type, message, block}\<close> and the object \<open>{content, warnings}\<close>.\<close>

record warning =
  w_type :: jsstring
  w_message :: jsstring
  w_block :: jsstring

record merge_result =
  m_content :: jsstring
  m_warnings :: "warning list"


section \<open>The orchestrator: extraction of protected blocks\<close>

text \<open>
  The loop of \<open>extractProtectedBlocks\<close> over the lines, \<open>i\<close> being the index of the
  first remaining line. \<open>blockStart\<close> starts as -1 in the source and is read only
  after a start marker has set it; the model starts it at 0.
\<close>

fun extract_loop ::
  "protected_blocks \<Rightarrow> jsstring list \<Rightarrow> nat \<Rightarrow> bool \<Rightarrow> jsstring list \<Rightarrow> nat \<Rightarrow> block list
     \<Rightarrow> block list" where
  "extract_loop cfg [] i inBlock currentBlock blockStart blocks = blocks"
| "extract_loop cfg (line # rest) i inBlock currentBlock blockStart blocks =
     (if \<not> inBlock \<and> some_includes (start_markers cfg) line then
        extract_loop cfg rest (i + 1) True [line] i blocks
      else if inBlock then
        (if some_includes (end_markers cfg) line then
           extract_loop cfg rest (i + 1) False [] blockStart
             (blocks @ [\<lparr>b_start = blockStart, b_end = i,
                         b_content = join_lines (currentBlock @ [line])\<rparr>])
         else extract_loop cfg rest (i + 1) True (currentBlock @ [line]) blockStart blocks)
      else extract_loop cfg rest (i + 1) inBlock currentBlock blockStart blocks)"

definition extractProtectedBlocks :: "protected_blocks \<Rightarrow> jsstring \<Rightarrow> block list" where
  "extractProtectedBlocks cfg content = extract_loop cfg (split_lines content) 0 False [] 0 []"


section \<open>The orchestrator: context sampling\<close>

definition isMarkerLine :: "protected_blocks \<Rightarrow> jsstring \<Rightarrow> bool" where
  "isMarkerLine cfg line = some_includes (start_markers cfg @ end_markers cfg) line"

text \<open>
  The loop of \<open>getContextBefore\<close>. \<open>lines[i]\<close> beyond the array is \<open>undefined\<close>, and
  \<open>undefined.trim()\<close> throws a TypeError: the result \<open>None\<close>.
\<close>

function getContextBefore_loop ::
  "protected_blocks \<Rightarrow> jsstring list \<Rightarrow> nat \<Rightarrow> nat \<Rightarrow> jsstring list \<Rightarrow> jsstring list option"
  where
  "getContextBefore_loop cfg lines position i contextLines =
     (if i < position then
        (if i < length lines then
           (let line = trim (lines ! i) in
            getContextBefore_loop cfg lines position (i + 1)
              (if line \<noteq> [] \<and> \<not> isMarkerLine cfg line then contextLines @ [line]
               else contextLines))
         else None)
      else Some contextLines)"
  by pat_completeness auto
termination
  by (relation "measure (\<lambda>(cfg, lines, position, i, contextLines). position - i)") auto

declare getContextBefore_loop.simps [simp del]

text \<open>\<open>Math.max(0, position - count)\<close> is the truncated subtraction of naturals.\<close>

definition getContextBefore ::
  "protected_blocks \<Rightarrow> jsstring list \<Rightarrow> nat \<Rightarrow> nat \<Rightarrow> jsstring list option" where
  "getContextBefore cfg lines position count =
     getContextBefore_loop cfg lines position
       (if count \<le> position then position - count else 0) []"

text \<open>The loop of \<open>getContextAfter\<close>; its bound \<open>end\<close> keeps \<open>i\<close> inside the array.\<close>

function getContextAfter_loop ::
  "protected_blocks \<Rightarrow> jsstring list \<Rightarrow> nat \<Rightarrow> nat \<Rightarrow> nat \<Rightarrow> jsstring list \<Rightarrow> jsstring list"
  where
  "getContextAfter_loop cfg lines position count i contextLines =
     (if i < min (length lines) (position + count + 1) then
        (let line = trim (lines ! i) in
         getContextAfter_loop cfg lines position count (i + 1)
           (if line \<noteq> [] \<and> \<not> isMarkerLine cfg line then contextLines @ [line]
            else contextLines))
      else contextLines)"
  by pat_completeness auto
termination
  by (relation "measure (\<lambda>(cfg, lines, position, count, i, contextLines).
                  min (length lines) (position + count + 1) - i)") auto

declare getContextAfter_loop.simps [simp del]

definition getContextAfter ::
  "protected_blocks \<Rightarrow> jsstring list \<Rightarrow> nat \<Rightarrow> nat \<Rightarrow> jsstring list" where
  "getContextAfter cfg lines position count =
     getContextAfter_loop cfg lines position count (position + 1) []"


section \<open>The orchestrator: locating the anchor\<close>

text \<open>The \<open>while\<close> loop of \<open>matchesContext\<close> on \<open>lineIdx\<close> and \<open>contextIdx\<close>.\<close>

function matchesContext_loop ::
  "jsstring list \<Rightarrow> jsstring list \<Rightarrow> bool \<Rightarrow> nat \<Rightarrow> nat \<Rightarrow> bool" where
  "matchesContext_loop lines context skipEmpty lineIdx contextIdx =
     (if contextIdx < length context \<and> lineIdx < length lines then
        (let line = trim (lines ! lineIdx) in
         if skipEmpty \<and> line = [] then
           matchesContext_loop lines context skipEmpty (lineIdx + 1) contextIdx
         else if line = context ! contextIdx then
           matchesContext_loop lines context skipEmpty (lineIdx + 1) (contextIdx + 1)
         else if str_includes line (context ! contextIdx) \<or> str_includes (context ! contextIdx) line
         then matchesContext_loop lines context skipEmpty (lineIdx + 1) (contextIdx + 1)
         else False)
      else contextIdx = length context)"
  by pat_completeness auto
termination
  by (relation "measure (\<lambda>(lines, context, skipEmpty, lineIdx, contextIdx).
                  length lines - lineIdx)") auto

declare matchesContext_loop.simps [simp del]

definition matchesContext :: "jsstring list \<Rightarrow> nat \<Rightarrow> jsstring list \<Rightarrow> bool \<Rightarrow> bool" where
  "matchesContext lines startPos context skipEmpty =
     matchesContext_loop lines context skipEmpty startPos 0"

text \<open>\<open>findInsertPosition\<close>: the result -1 is \<open>None\<close>. \<open>contextAfter\<close> is not used.\<close>

function findInsertPosition_loop :: "jsstring list \<Rightarrow> jsstring list \<Rightarrow> nat \<Rightarrow> nat option" where
  "findInsertPosition_loop lines contextBefore i =
     (if i < length lines then
        (if matchesContext lines i contextBefore True
              \<and> i + length contextBefore < length lines
         then Some (i + length contextBefore)
         else findInsertPosition_loop lines contextBefore (i + 1))
      else None)"
  by pat_completeness auto
termination
  by (relation "measure (\<lambda>(lines, contextBefore, i). length lines - i)") auto

declare findInsertPosition_loop.simps [simp del]

definition findInsertPosition ::
  "jsstring list \<Rightarrow> jsstring list \<Rightarrow> jsstring list \<Rightarrow> nat option" where
  "findInsertPosition lines contextBefore contextAfter =
     findInsertPosition_loop lines contextBefore 0"

text \<open>\<open>findContextAfterPosition\<close>: at most 20 positions from \<open>startFrom\<close>; -1 is \<open>None\<close>.\<close>

function findContextAfterPosition_loop ::
  "jsstring list \<Rightarrow> jsstring list \<Rightarrow> nat \<Rightarrow> nat \<Rightarrow> nat option" where
  "findContextAfterPosition_loop lines contextAfter startFrom i =
     (if i < min (length lines) (startFrom + 20) then
        (if matchesContext lines i contextAfter False then Some i
         else findContextAfterPosition_loop lines contextAfter startFrom (i + 1))
      else None)"
  by pat_completeness auto
termination
  by (relation "measure (\<lambda>(lines, contextAfter, startFrom, i).
                  min (length lines) (startFrom + 20) - i)") auto

declare findContextAfterPosition_loop.simps [simp del]

definition findContextAfterPosition ::
  "jsstring list \<Rightarrow> jsstring list \<Rightarrow> nat \<Rightarrow> nat option" where
  "findContextAfterPosition lines contextAfter startFrom =
     findContextAfterPosition_loop lines contextAfter startFrom startFrom"


section \<open>The orchestrator: merging\<close>

text \<open>
  The comment line pushed before a block whose context is missing. Its warning sign is
  the two code units U+26A0 and U+FE0F.
\<close>

definition WARNING_COMMENT :: jsstring where
  "WARNING_COMMENT =
     js ''// '' @ [9888, 65039]
     @ js '' WARNING: This block was preserved but context not found in main-app''"

definition context_missing_message :: "block \<Rightarrow> jsstring" where
  "context_missing_message b =
     js ''Protected block at lines '' @ decimal (b_start b) @ js ''-'' @ decimal (b_end b)
     @ js '' has no matching context in main-app. Main may have removed this section.''"

text \<open>
  The body of the \<open>for\<close> loop of \<open>intelligentMerge\<close> for one block, on the state
  \<open>(result, warnings)\<close>. \<open>None\<close> is the TypeError of \<open>getContextBefore\<close>.
\<close>

fun merge_block ::
  "protected_blocks \<Rightarrow> jsstring list \<Rightarrow> jsstring list \<times> warning list \<Rightarrow> block
     \<Rightarrow> (jsstring list \<times> warning list) option" where
  "merge_block cfg demoLines (result, warnings) b =
     (case getContextBefore cfg demoLines (b_start b) 3 of
        None \<Rightarrow> None
      | Some contextBefore \<Rightarrow>
          (let contextAfter = getContextAfter cfg demoLines (b_end b) 3 in
           (case findInsertPosition result contextBefore contextAfter of
              Some insertPosition \<Rightarrow>
                (let blockLines = split_lines (b_content b);
                     replaceStart = insertPosition in
                 (case findContextAfterPosition result contextAfter replaceStart of
                    Some replaceEnd \<Rightarrow>
                      Some (splice result replaceStart (replaceEnd - replaceStart) blockLines,
                            warnings)
                  | None \<Rightarrow> Some (splice result insertPosition 0 blockLines, warnings)))
            | None \<Rightarrow>
                Some (result @ [[]] @ [WARNING_COMMENT] @ split_lines (b_content b),
                      warnings @ [\<lparr>w_type = js ''protected_block_context_missing'',
                                    w_message = context_missing_message b,
                                    w_block = take 100 (b_content b) @ js ''...''\<rparr>]))))"

fun merge_blocks ::
  "protected_blocks \<Rightarrow> jsstring list \<Rightarrow> jsstring list \<times> warning list \<Rightarrow> block list
     \<Rightarrow> (jsstring list \<times> warning list) option" where
  "merge_blocks cfg demoLines st [] = Some st"
| "merge_blocks cfg demoLines st (b # bs) =
     (case merge_block cfg demoLines st b of
        None \<Rightarrow> None
      | Some st' \<Rightarrow> merge_blocks cfg demoLines st' bs)"

text \<open>\<open>intelligentMerge\<close>; its parameter \<open>file\<close> is not used and is left out.\<close>

definition intelligentMerge ::
  "protected_blocks \<Rightarrow> jsstring \<Rightarrow> jsstring \<Rightarrow> block list \<Rightarrow> merge_result option" where
  "intelligentMerge cfg mainContent demoContent protectedBlocks =
     (case merge_blocks cfg (split_lines demoContent) (split_lines mainContent, [])
             protectedBlocks of
        None \<Rightarrow> None
      | Some (result, warnings) \<Rightarrow>
          Some \<lparr>m_content = join_lines result, m_warnings = warnings\<rparr>)"

text \<open>
  \<open>smartMergeFile\<close> without the file system: \<open>mainContent\<close> is the text of the main
  file, \<open>demoFile\<close> the text of the demo file when it exists. The result is the text
  the demo file holds afterwards (copied from the main file when there is no block)
  and the warnings logged.
\<close>

definition smartMergeFile ::
  "protected_blocks \<Rightarrow> jsstring \<Rightarrow> jsstring option \<Rightarrow> merge_result option" where
  "smartMergeFile cfg mainContent demoFile =
     (let demoContent = (case demoFile of Some d \<Rightarrow> d | None \<Rightarrow> mainContent);
          protectedBlocks = extractProtectedBlocks cfg demoContent
      in if length protectedBlocks = 0 then Some \<lparr>m_content = mainContent, m_warnings = []\<rparr>
         else intelligentMerge cfg mainContent demoContent protectedBlocks)"


section \<open>Validation of protected blocks\<close>

text \<open>
  The orchestrator's \<open>validateProtectedBlocks(content)\<close>: the counter \<open>openBlocks\<close>
  over the lines, and the object \<open>{valid, error}\<close> it returns (\<open>error\<close> is absent
  from a valid result).
\<close>

fun openBlocks_loop :: "protected_blocks \<Rightarrow> jsstring list \<Rightarrow> int \<Rightarrow> int" where
  "openBlocks_loop cfg [] openBlocks = openBlocks"
| "openBlocks_loop cfg (line # rest) openBlocks =
     (let o1 = (if some_includes (start_markers cfg) line then openBlocks + 1 else openBlocks);
          o2 = (if some_includes (end_markers cfg) line then o1 - 1 else o1)
      in openBlocks_loop cfg rest o2)"

record validation =
  valid :: bool
  error :: "jsstring option"

definition validateProtectedBlocks :: "protected_blocks \<Rightarrow> jsstring \<Rightarrow> validation" where
  "validateProtectedBlocks cfg content =
     (let openBlocks = openBlocks_loop cfg (split_lines content) 0 in
      if openBlocks \<noteq> 0 then
        \<lparr>valid = False,
         error = Some (js ''Unclosed protected blocks: ''
                       @ (if openBlocks > 0 then js ''missing END'' else js ''missing START''))\<rparr>
      else \<lparr>valid = True, error = None\<rparr>)"

text \<open>
  \<open>SyncValidator.validateProtectedBlocks(filePath, content)\<close>. It pushes objects
  \<open>{file, type, line, message}\<close> onto \<open>this.errors\<close>, which the model passes in and
  returns. \<open>blockStarts[blockStarts.length - 1]\<close> of an empty array is \<open>undefined\<close>:
  the line \<open>None\<close>.
\<close>

record validator_error =
  e_file :: jsstring
  e_type :: jsstring
  e_line :: "nat option"
  e_message :: jsstring

fun sv_loop ::
  "protected_blocks \<Rightarrow> jsstring \<Rightarrow> jsstring list \<Rightarrow> nat \<Rightarrow> int \<Rightarrow> nat list
     \<Rightarrow> validator_error list \<Rightarrow> int \<times> nat list \<times> validator_error list" where
  "sv_loop cfg filePath [] i openBlocks blockStarts errors = (openBlocks, blockStarts, errors)"
| "sv_loop cfg filePath (line # rest) i openBlocks blockStarts errors =
     (let started = some_includes (start_markers cfg) line;
          o1 = (if started then openBlocks + 1 else openBlocks);
          blockStarts1 = (if started then blockStarts @ [i + 1] else blockStarts)
      in if some_includes (end_markers cfg) line then
           (if o1 - 1 < 0 then
              sv_loop cfg filePath rest (i + 1) 0 blockStarts1
                (errors @ [\<lparr>e_file = filePath, e_type = js ''protected_block'',
                             e_line = Some (i + 1),
                             e_message =
                               js ''INTENTIONAL-END without matching INTENTIONAL-START''\<rparr>])
            else sv_loop cfg filePath rest (i + 1) (o1 - 1) blockStarts1 errors)
         else sv_loop cfg filePath rest (i + 1) o1 blockStarts1 errors)"

definition SyncValidator_validateProtectedBlocks ::
  "protected_blocks \<Rightarrow> jsstring \<Rightarrow> jsstring \<Rightarrow> validator_error list
     \<Rightarrow> validator_error list" where
  "SyncValidator_validateProtectedBlocks cfg filePath content errors0 =
     (case sv_loop cfg filePath (split_lines content) 0 0 [] errors0 of
        (openBlocks, blockStarts, errors) \<Rightarrow>
          if openBlocks > 0 then
            errors @ [\<lparr>e_file = filePath, e_type = js ''protected_block'',
                        e_line = (if blockStarts = [] then None else Some (last blockStarts)),
                        e_message =
                          decimal (nat openBlocks)
                          @ js '' unclosed INTENTIONAL block(s) - missing INTENTIONAL-END''\<rparr>]
          else errors)"


section \<open>Predicates for stating the properties\<close>

text \<open>A trimmed line that the context sampler keeps: not empty and not a marker line.\<close>

definition eligible :: "protected_blocks \<Rightarrow> jsstring \<Rightarrow> bool" where
  "eligible cfg line \<longleftrightarrow> line \<noteq> [] \<and> \<not> isMarkerLine cfg line"

text \<open>
  A block of the document \<open>lines\<close> is well formed: it starts at a line with a start
  marker, ends at the first later line with an end marker, and its content is the text
  of these lines, joined as they are.
\<close>

definition well_formed_block :: "protected_blocks \<Rightarrow> jsstring list \<Rightarrow> block \<Rightarrow> bool" where
  "well_formed_block cfg lines b \<longleftrightarrow>
     b_start b < b_end b \<and> b_end b < length lines
     \<and> some_includes (start_markers cfg) (lines ! b_start b)
     \<and> some_includes (end_markers cfg) (lines ! b_end b)
     \<and> (\<forall>j\<in>{b_start b <..< b_end b}. \<not> some_includes (end_markers cfg) (lines ! j))
     \<and> b_content b = join_lines (take (b_end b - b_start b + 1) (drop (b_start b) lines))"

text \<open>The numbers of lines with a start marker and of lines with an end marker.\<close>

definition count_start :: "protected_blocks \<Rightarrow> jsstring list \<Rightarrow> nat" where
  "count_start cfg lines = length (filter (some_includes (start_markers cfg)) lines)"

definition count_end :: "protected_blocks \<Rightarrow> jsstring list \<Rightarrow> nat" where
  "count_end cfg lines = length (filter (some_includes (end_markers cfg)) lines)"

text \<open>
  The malformed documents in the words of the specification. Blocks do not nest: the
  document is read as the extractor reads it, a start marker opening a block only
  outside a block and the next end marker closing it. The document is malformed when
  a block is still open at its end (an unclosed start marker), or when a line outside
  every block has an end marker and no start marker (an end marker with no matching
  start). A line with both markers is read as the extractor reads it: as a start
  marker outside a block, as an end marker inside one. \<open>malformed_scan\<close> reads the
  rest of the document, inside a block or not.
\<close>

fun malformed_scan :: "protected_blocks \<Rightarrow> jsstring list \<Rightarrow> bool \<Rightarrow> bool" where
  "malformed_scan cfg [] inBlock = inBlock"
| "malformed_scan cfg (line # rest) inBlock =
     (if inBlock then malformed_scan cfg rest (\<not> some_includes (end_markers cfg) line)
      else if some_includes (start_markers cfg) line then malformed_scan cfg rest True
      else some_includes (end_markers cfg) line \<or> malformed_scan cfg rest False)"

definition malformed_spec :: "protected_blocks \<Rightarrow> jsstring list \<Rightarrow> bool" where
  "malformed_spec cfg lines = malformed_scan cfg lines False"


section \<open>Default configurations and sample documents\<close>

text \<open>
  The \<open>protected_blocks\<close> part of the orchestrator's \<open>getDefaultConfig()\<close> and of
  \<open>SyncValidator.getDefaultConfig()\<close>.
\<close>

definition getDefaultConfig :: protected_blocks where
  "getDefaultConfig =
     \<lparr>start_markers = [js ''{/* DEMO-INTENTIONAL-START */}''],
      end_markers = [js ''{/* DEMO-INTENTIONAL-END */}'']\<rparr>"

definition SyncValidator_getDefaultConfig :: protected_blocks where
  "SyncValidator_getDefaultConfig =
     \<lparr>start_markers = [js ''// INTENTIONAL-START'', js ''<!-- INTENTIONAL-START -->'',
                       js ''/* INTENTIONAL-START */''],
      end_markers = [js ''// INTENTIONAL-END'', js ''<!-- INTENTIONAL-END -->'',
                     js ''/* INTENTIONAL-END */'']\<rparr>"

text \<open>A demo file whose only block is preceded by a blank line alone.\<close>

definition demo_blank_before :: "jsstring list" where
  "demo_blank_before =
     map js ['''', ''{/* DEMO-INTENTIONAL-START */}'', ''<Mock />'',
             ''{/* DEMO-INTENTIONAL-END */}'', ''export default App;'']"

definition block_blank_before :: block where
  "block_blank_before =
     \<lparr>b_start = 1, b_end = 3,
      b_content = join_lines (map js [''{/* DEMO-INTENTIONAL-START */}'', ''<Mock />'',
                                       ''{/* DEMO-INTENTIONAL-END */}''])\<rparr>"


text \<open>
  A demo file with one block between two lines of context on each side, the block as
  extracted from it, a main file that still has the context, one that has lost the
  after-context, and one that has lost the before-context.
\<close>

definition demo_anchor :: "jsstring list" where
  "demo_anchor =
     map js [''import React;'', ''function App() {'', ''{/* DEMO-INTENTIONAL-START */}'',
             ''  return <Mock />;'', ''{/* DEMO-INTENTIONAL-END */}'', ''}'',
             ''export default App;'']"

definition block_anchor :: block where
  "block_anchor =
     \<lparr>b_start = 2, b_end = 4,
      b_content = join_lines (map js [''{/* DEMO-INTENTIONAL-START */}'', ''  return <Mock />;'',
                                       ''{/* DEMO-INTENTIONAL-END */}''])\<rparr>"

definition main_anchor :: "jsstring list" where
  "main_anchor =
     map js [''import React;'', ''function App() {'', ''  return <Live />;'', ''}'',
             ''export default App;'']"

definition main_no_after :: "jsstring list" where
  "main_no_after = map js [''import React;'', ''function App() {'', ''  return <Live />;'']"

definition main_no_before :: "jsstring list" where
  "main_no_before = map js [''import Vue;'', ''export default {};'']"


text \<open>
  A demo file whose block has three blank lines on each side, with code beyond them.
\<close>

definition demo_gap :: "jsstring list" where
  "demo_gap =
     map js [''const a = 1;'', '''', '''', '''', ''{/* DEMO-INTENTIONAL-START */}'',
             ''<Mock />'', ''{/* DEMO-INTENTIONAL-END */}'', '''', '''', '''',
             ''const b = 2;'']"

text \<open>
  A demo file with a start marker inside a block and an unclosed block at its end.
\<close>

definition demo_nested :: "jsstring list" where
  "demo_nested =
     map js [''<div>'', ''{/* DEMO-INTENTIONAL-START */}'', ''<A />'',
             ''{/* DEMO-INTENTIONAL-START */}'', ''<B />'', ''{/* DEMO-INTENTIONAL-END */}'',
             ''<C />'', ''{/* DEMO-INTENTIONAL-START */}'', ''<D />'']"

text \<open>
  A demo file with two blocks next to each other, its two blocks, and the main file.
\<close>

definition demo_adjacent :: "jsstring list" where
  "demo_adjacent =
     map js [''import React;'', ''{/* DEMO-INTENTIONAL-START */}'', ''<MockA />'',
             ''{/* DEMO-INTENTIONAL-END */}'', ''{/* DEMO-INTENTIONAL-START */}'',
             ''<MockB />'', ''{/* DEMO-INTENTIONAL-END */}'', ''export default App;'']"

definition block_adjacent_1 :: block where
  "block_adjacent_1 =
     \<lparr>b_start = 1, b_end = 3,
      b_content = join_lines (map js [''{/* DEMO-INTENTIONAL-START */}'', ''<MockA />'',
                                       ''{/* DEMO-INTENTIONAL-END */}''])\<rparr>"

definition block_adjacent_2 :: block where
  "block_adjacent_2 =
     \<lparr>b_start = 4, b_end = 6,
      b_content = join_lines (map js [''{/* DEMO-INTENTIONAL-START */}'', ''<MockB />'',
                                       ''{/* DEMO-INTENTIONAL-END */}''])\<rparr>"

definition main_adjacent :: "jsstring list" where
  "main_adjacent = map js [''import React;'', ''export default App;'']"

text \<open>
  A document whose end marker comes before its start marker, one with a start marker
  and no end marker, and one with an end marker and no start marker.
\<close>

definition doc_end_first :: "jsstring list" where
  "doc_end_first =
     map js [''{/* DEMO-INTENTIONAL-END */}'', ''<Mock />'', ''{/* DEMO-INTENTIONAL-START */}'']"

definition doc_unclosed :: "jsstring list" where
  "doc_unclosed = map js [''<div>'', ''{/* DEMO-INTENTIONAL-START */}'', ''<Mock />'']"

definition doc_stray_end :: "jsstring list" where
  "doc_stray_end = map js [''<Mock />'', ''{/* DEMO-INTENTIONAL-END */}'', ''</div>'']"

text \<open>
  A demo file with two blocks, the first with a before-context that the main file does
  not have, the second followed by the inner lines of the first; its two blocks; and
  the main file.
\<close>

definition demo_lost :: "jsstring list" where
  "demo_lost =
     map js [''q'', ''{/* DEMO-INTENTIONAL-START */}'', ''foo'', ''baz'',
             ''{/* DEMO-INTENTIONAL-END */}'', '''', '''', ''a'',
             ''{/* DEMO-INTENTIONAL-START */}'', ''bar'', ''{/* DEMO-INTENTIONAL-END */}'',
             ''foo'', ''baz'']"

definition block_lost_A :: block where
  "block_lost_A =
     \<lparr>b_start = 1, b_end = 4,
      b_content = join_lines (map js [''{/* DEMO-INTENTIONAL-START */}'', ''foo'', ''baz'',
                                       ''{/* DEMO-INTENTIONAL-END */}''])\<rparr>"

definition block_lost_B :: block where
  "block_lost_B =
     \<lparr>b_start = 8, b_end = 10,
      b_content = join_lines (map js [''{/* DEMO-INTENTIONAL-START */}'', ''bar'',
                                       ''{/* DEMO-INTENTIONAL-END */}''])\<rparr>"

definition main_lost :: "jsstring list" where
  "main_lost =
     map js [''a'', ''z1'', ''z2'', ''z3'', ''z4'', ''z5'', ''z6'', ''z7'', ''z8'', ''z9'', ''z10'']"


section \<open>Lines and text\<close>

lemmas eval_defs =
  decimal.simps getContextBefore_loop.simps getContextAfter_loop.simps
  matchesContext_loop.simps findInsertPosition_loop.simps findContextAfterPosition_loop.simps
  js_def startsWith_def some_includes_def isMarkerLine_def trim_def isWhiteSpace_def
  splice_def getContextBefore_def getContextAfter_def matchesContext_def
  findInsertPosition_def findContextAfterPosition_def extractProtectedBlocks_def
  intelligentMerge_def smartMergeFile_def getDefaultConfig_def
  SyncValidator_getDefaultConfig_def context_missing_message_def WARNING_COMMENT_def

lemma split_lines_nonempty: "split_lines s \<noteq> []"
  by (induction s) (auto split: list.splits)

lemma join_split: "join_lines (split_lines s) = s"
proof (induction s)
  case Nil
  then show ?case by simp
next
  case (Cons c s)
  then show ?case
    by (cases "split_lines s"; cases "tl (split_lines s)") (auto simp: split_lines_nonempty)
qed

lemma split_lines_no_newline: "l \<in> set (split_lines s) \<Longrightarrow> 10 \<notin> set l"
  by (induction s arbitrary: l) (auto split: if_splits list.splits)

lemma split_line_no_newline: "10 \<notin> set l \<Longrightarrow> split_lines l = [l]"
  by (induction l) auto

lemma split_append_newline:
  "10 \<notin> set l \<Longrightarrow> split_lines (l @ 10 # s) = l # split_lines s"
  by (induction l) auto

lemma split_join:
  "ls \<noteq> [] \<Longrightarrow> \<forall>l\<in>set ls. 10 \<notin> set l \<Longrightarrow> split_lines (join_lines ls) = ls"
proof (induction ls rule: join_lines.induct)
  case 1
  then show ?case by simp
next
  case (2 l)
  then show ?case by (simp add: split_line_no_newline)
next
  case (3 l v va)
  then show ?case by (simp add: split_append_newline)
qed


section \<open>An empty before-context anchors at the top\<close>

lemma matchesContext_empty: "matchesContext lines i [] skipEmpty"
  by (simp add: matchesContext_def matchesContext_loop.simps)

lemma findInsertPosition_empty:
  "lines \<noteq> [] \<Longrightarrow> findInsertPosition lines [] contextAfter = Some 0"
  by (simp add: findInsertPosition_def matchesContext_empty findInsertPosition_loop.simps)

lemma getContextBefore_zero: "getContextBefore cfg demoLines 0 count = Some []"
  by (simp add: getContextBefore_def getContextBefore_loop.simps)

lemma merge_block_empty_context:
  assumes "result \<noteq> []" and "getContextBefore cfg demoLines (b_start b) 3 = Some []"
  shows "\<exists>rest. merge_block cfg demoLines (result, warnings) b
           = Some (split_lines (b_content b) @ rest, warnings)"
  using assms
  by (auto simp: findInsertPosition_empty splice_def Let_def split: option.splits)

text \<open>
  Claim C10. In a target document that is not empty, the empty before-context is found
  at position 0: \<open>findInsertPosition\<close> returns 0, never -1. A block that starts at
  line 0 has the empty before-context. The merge step of a block whose before-context
  is empty puts the lines of the block at the top of the working document and adds no
  warning, so the block does not take the append-with-warning path.
\<close>

theorem empty_before_context_anchors_at_top:
  "(lines \<noteq> [] \<longrightarrow> findInsertPosition lines [] contextAfter = Some 0)
   \<and> getContextBefore cfg demoLines 0 count = Some []
   \<and> (result \<noteq> [] \<and> getContextBefore cfg demoLines (b_start b) 3 = Some [] \<longrightarrow>
        (\<exists>rest. merge_block cfg demoLines (result, warnings) b
                  = Some (split_lines (b_content b) @ rest, warnings)))"
  using findInsertPosition_empty getContextBefore_zero merge_block_empty_context
  by blast

theorem empty_before_context_anchors_at_top_witness:
  "[js ''import App;''] \<noteq> []
   \<and> getContextBefore getDefaultConfig demo_blank_before (b_start block_blank_before) 3
       = Some []
   \<and> findInsertPosition [js ''import App;''] [] [js ''export default App;''] = Some 0
   \<and> (\<exists>rest. merge_block getDefaultConfig demo_blank_before ([js ''import App;''], [])
                block_blank_before
              = Some (split_lines (b_content block_blank_before) @ rest, []))"
proof -
  have h1: "[js ''import App;''] \<noteq> []"
    by simp
  have h2: "getContextBefore getDefaultConfig demo_blank_before (b_start block_blank_before) 3
              = Some []"
    by (simp add: demo_blank_before_def block_blank_before_def eval_defs)
  show ?thesis
    using h1 h2
      empty_before_context_anchors_at_top [of "[js ''import App;'']"
        "[js ''export default App;'']" getDefaultConfig demo_blank_before 3
        "[js ''import App;'']" block_blank_before "[]"]
    by blast
qed


section \<open>A demo file without blocks\<close>

lemma merge_blocks_Nil: "merge_blocks cfg demoLines st [] = Some st"
  by simp

lemma intelligentMerge_no_blocks:
  "intelligentMerge cfg mainContent demoContent []
     = Some \<lparr>m_content = mainContent, m_warnings = []\<rparr>"
  by (simp add: intelligentMerge_def join_split)

text \<open>
  Claim C2. When the demo file \<open>D\<close> has no protected block, the merge of \<open>S\<close> and
  \<open>D\<close> is the text \<open>S\<close> itself with no warning: \<open>smartMergeFile\<close> copies the main
  file, and \<open>intelligentMerge\<close> on the empty list of blocks splits \<open>S\<close> into lines
  and joins them again, which gives \<open>S\<close> back code unit for code unit.
\<close>

theorem no_block_identity:
  assumes "extractProtectedBlocks cfg D = []"
  shows "smartMergeFile cfg S (Some D) = Some \<lparr>m_content = S, m_warnings = []\<rparr>
         \<and> intelligentMerge cfg S D (extractProtectedBlocks cfg D)
             = Some \<lparr>m_content = S, m_warnings = []\<rparr>"
  using assms by (simp add: smartMergeFile_def intelligentMerge_no_blocks)

theorem no_block_identity_witness:
  "extractProtectedBlocks getDefaultConfig (js ''const demo = true;'') = []
   \<and> smartMergeFile getDefaultConfig (join_lines (map js [''const a = 1;'', '''', ''export {a};'']))
         (Some (js ''const demo = true;''))
       = Some \<lparr>m_content = join_lines (map js [''const a = 1;'', '''', ''export {a};'']),
                m_warnings = []\<rparr>
   \<and> intelligentMerge getDefaultConfig
         (join_lines (map js [''const a = 1;'', '''', ''export {a};'']))
         (js ''const demo = true;'')
         (extractProtectedBlocks getDefaultConfig (js ''const demo = true;''))
       = Some \<lparr>m_content = join_lines (map js [''const a = 1;'', '''', ''export {a};'']),
                m_warnings = []\<rparr>"
proof -
  have h: "extractProtectedBlocks getDefaultConfig (js ''const demo = true;'') = []"
    by (simp add: extractProtectedBlocks_def getDefaultConfig_def js_def some_includes_def
        startsWith_def)
  show ?thesis
    using h no_block_identity [OF h] by blast
qed


section \<open>The anchor search takes the first match\<close>

lemma findInsertPosition_loop_Some:
  "findInsertPosition_loop lines cb i = Some p \<longleftrightarrow>
     (\<exists>j. i \<le> j \<and> p = j + length cb \<and> p < length lines \<and> matchesContext lines j cb True
          \<and> (\<forall>k. i \<le> k \<and> k < j \<longrightarrow> \<not> matchesContext lines k cb True))"
proof (induction lines cb i rule: findInsertPosition_loop.induct)
  case (1 lines cb i)
  show ?case
  proof (cases "i < length lines")
    case False
    then show ?thesis
      by (subst findInsertPosition_loop.simps) auto
  next
    case inr: True
    show ?thesis
    proof (cases "matchesContext lines i cb True \<and> i + length cb < length lines")
      case True
      have "findInsertPosition_loop lines cb i = Some (i + length cb)"
        using inr True by (subst findInsertPosition_loop.simps) simp
      moreover have "(\<exists>j. i \<le> j \<and> p = j + length cb \<and> p < length lines
            \<and> matchesContext lines j cb True
            \<and> (\<forall>k. i \<le> k \<and> k < j \<longrightarrow> \<not> matchesContext lines k cb True))
          \<longleftrightarrow> p = i + length cb"
      proof
        assume "\<exists>j. i \<le> j \<and> p = j + length cb \<and> p < length lines
            \<and> matchesContext lines j cb True
            \<and> (\<forall>k. i \<le> k \<and> k < j \<longrightarrow> \<not> matchesContext lines k cb True)"
        then obtain j where j: "i \<le> j" "p = j + length cb"
          "\<forall>k. i \<le> k \<and> k < j \<longrightarrow> \<not> matchesContext lines k cb True"
          by blast
        have "\<not> i < j" using j(3) True by auto
        with j(1,2) show "p = i + length cb" by simp
      next
        assume "p = i + length cb"
        with True show "\<exists>j. i \<le> j \<and> p = j + length cb \<and> p < length lines
            \<and> matchesContext lines j cb True
            \<and> (\<forall>k. i \<le> k \<and> k < j \<longrightarrow> \<not> matchesContext lines k cb True)"
          by (intro exI[of _ i]) auto
      qed
      ultimately show ?thesis by auto
    next
      case False
      have eq: "findInsertPosition_loop lines cb i = findInsertPosition_loop lines cb (i + 1)"
        using inr False by (subst findInsertPosition_loop.simps) auto
      have ih: "findInsertPosition_loop lines cb (i + 1) = Some p \<longleftrightarrow>
        (\<exists>j. i + 1 \<le> j \<and> p = j + length cb \<and> p < length lines
            \<and> matchesContext lines j cb True
            \<and> (\<forall>k. i + 1 \<le> k \<and> k < j \<longrightarrow> \<not> matchesContext lines k cb True))"
        using 1 inr False by blast
      have "(\<exists>j. i + 1 \<le> j \<and> p = j + length cb \<and> p < length lines
            \<and> matchesContext lines j cb True
            \<and> (\<forall>k. i + 1 \<le> k \<and> k < j \<longrightarrow> \<not> matchesContext lines k cb True))
        \<longleftrightarrow> (\<exists>j. i \<le> j \<and> p = j + length cb \<and> p < length lines
            \<and> matchesContext lines j cb True
            \<and> (\<forall>k. i \<le> k \<and> k < j \<longrightarrow> \<not> matchesContext lines k cb True))"
        (is "?L \<longleftrightarrow> ?R")
      proof
        assume ?L
        then obtain j where j: "i + 1 \<le> j" "p = j + length cb" "p < length lines"
          "matchesContext lines j cb True"
          "\<forall>k. i + 1 \<le> k \<and> k < j \<longrightarrow> \<not> matchesContext lines k cb True"
          by blast
        have ni: "\<not> matchesContext lines i cb True"
          using False j(1,2,3) by auto
        have "\<forall>k. i \<le> k \<and> k < j \<longrightarrow> \<not> matchesContext lines k cb True"
        proof (intro allI impI)
          fix k assume "i \<le> k \<and> k < j"
          then have "k = i \<or> (i + 1 \<le> k \<and> k < j)" by auto
          then show "\<not> matchesContext lines k cb True" using ni j(5) by blast
        qed
        with j show ?R by (intro exI[of _ j]) auto
      next
        assume ?R
        then obtain j where j: "i \<le> j" "p = j + length cb" "p < length lines"
          "matchesContext lines j cb True"
          "\<forall>k. i \<le> k \<and> k < j \<longrightarrow> \<not> matchesContext lines k cb True"
          by blast
        have "j \<noteq> i" using False j(2,3,4) by auto
        with j show ?L by (intro exI[of _ j]) auto
      qed
      with eq ih show ?thesis by simp
    qed
  qed
qed

lemma findInsertPosition_loop_None:
  "findInsertPosition_loop lines cb i = None \<longleftrightarrow>
     (\<forall>j. i \<le> j \<and> j < length lines \<and> matchesContext lines j cb True
          \<longrightarrow> length lines \<le> j + length cb)"
proof (induction lines cb i rule: findInsertPosition_loop.induct)
  case (1 lines cb i)
  show ?case
  proof (cases "i < length lines")
    case False
    then show ?thesis
      by (subst findInsertPosition_loop.simps) auto
  next
    case inr: True
    show ?thesis
    proof (cases "matchesContext lines i cb True \<and> i + length cb < length lines")
      case True
      have "findInsertPosition_loop lines cb i = Some (i + length cb)"
        using inr True by (subst findInsertPosition_loop.simps) simp
      with True inr show ?thesis by auto
    next
      case False
      have eq: "findInsertPosition_loop lines cb i = findInsertPosition_loop lines cb (i + 1)"
        using inr False by (subst findInsertPosition_loop.simps) auto
      have ih: "findInsertPosition_loop lines cb (i + 1) = None \<longleftrightarrow>
        (\<forall>j. i + 1 \<le> j \<and> j < length lines \<and> matchesContext lines j cb True
          \<longrightarrow> length lines \<le> j + length cb)"
        using 1 inr False by blast
      have "(\<forall>j. i + 1 \<le> j \<and> j < length lines \<and> matchesContext lines j cb True
          \<longrightarrow> length lines \<le> j + length cb)
        \<longleftrightarrow> (\<forall>j. i \<le> j \<and> j < length lines \<and> matchesContext lines j cb True
          \<longrightarrow> length lines \<le> j + length cb)" (is "?L \<longleftrightarrow> ?R")
      proof
        assume l: ?L
        show ?R
        proof (intro allI impI)
          fix j assume a: "i \<le> j \<and> j < length lines \<and> matchesContext lines j cb True"
          then have "j = i \<or> i + 1 \<le> j" by auto
          then show "length lines \<le> j + length cb"
            using a l False by (metis not_le_imp_less)
        qed
      next
        assume ?R then show ?L by auto
      qed
      with eq ih show ?thesis by simp
    qed
  qed
qed


text \<open>
  Claim C4, as amended. \<open>findInsertPosition\<close> returns the insertion point
  \<open>i + length contextBefore\<close> of the first position \<open>i\<close> (from 0 upward) at which the
  before-context matches, when that insertion point is an index of the document; no
  later match is considered. It returns -1 (\<open>None\<close>) exactly when every matching
  position has its insertion point at or beyond the end of the document, which
  includes the case of no match at all.
\<close>

theorem findInsertPosition_first_match:
  "(findInsertPosition lines cb ca = Some p \<longleftrightarrow>
      (\<exists>i. p = i + length cb \<and> p < length lines \<and> matchesContext lines i cb True
           \<and> (\<forall>j<i. \<not> matchesContext lines j cb True)))
   \<and> (findInsertPosition lines cb ca = None \<longleftrightarrow>
        (\<forall>i<length lines. matchesContext lines i cb True \<longrightarrow> length lines \<le> i + length cb))"
  by (auto simp: findInsertPosition_def findInsertPosition_loop_Some
      findInsertPosition_loop_None)

theorem findInsertPosition_first_match_witness:
  "matchesContext (map js [''<div>'', ''<Button />'', ''<div>'', ''<Button />'', ''</div>'']) 0
     [js ''<div>''] True
   \<and> matchesContext (map js [''<div>'', ''<Button />'', ''<div>'', ''<Button />'', ''</div>'']) 2
       [js ''<div>''] True
   \<and> findInsertPosition
         (map js [''<div>'', ''<Button />'', ''<div>'', ''<Button />'', ''</div>''])
         [js ''<div>''] [] = Some 1"
proof -
  let ?L = "map js [''<div>'', ''<Button />'', ''<div>'', ''<Button />'', ''</div>'']"
  have m0: "matchesContext ?L 0 [js ''<div>''] True"
    by (simp add: eval_defs)
  have m2: "matchesContext ?L 2 [js ''<div>''] True"
    by (simp add: eval_defs)
  have "\<exists>i. (1::nat) = i + length [js ''<div>''] \<and> 1 < length ?L
          \<and> matchesContext ?L i [js ''<div>''] True
          \<and> (\<forall>j<i. \<not> matchesContext ?L j [js ''<div>''] True)"
    using m0 by (intro exI[of _ 0]) simp
  then have "findInsertPosition ?L [js ''<div>''] [] = Some 1"
    using findInsertPosition_first_match [of ?L "[js ''<div>'']" "[]" 1] by blast
  with m0 m2 show ?thesis by blast
qed

text \<open>
  Claim C4 as stated fails: the before-context matches at position 1, the last line of
  the document, and the locator returns -1 instead of the insertion point 2.
\<close>

theorem first_match_at_end_counterexample:
  "matchesContext (map js [''import App;'', ''export default App;'']) 1
     [js ''export default App;''] True
   \<and> \<not> matchesContext (map js [''import App;'', ''export default App;'']) 0
         [js ''export default App;''] True
   \<and> findInsertPosition (map js [''import App;'', ''export default App;''])
         [js ''export default App;''] [] \<noteq> Some (1 + length [js ''export default App;''])
   \<and> findInsertPosition (map js [''import App;'', ''export default App;''])
         [js ''export default App;''] [] = None"
  by (simp add: eval_defs)


section \<open>The replacement span\<close>

lemma fcap_loop_Some:
  "findContextAfterPosition_loop lines ca s i = Some e \<longleftrightarrow>
     (i \<le> e \<and> e < min (length lines) (s + 20) \<and> matchesContext lines e ca False
      \<and> (\<forall>k. i \<le> k \<and> k < e \<longrightarrow> \<not> matchesContext lines k ca False))"
proof (induction lines ca s i rule: findContextAfterPosition_loop.induct)
  case (1 lines ca s i)
  show ?case
  proof (cases "i < min (length lines) (s + 20)")
    case False
    then show ?thesis
      by (subst findContextAfterPosition_loop.simps) auto
  next
    case inr: True
    show ?thesis
    proof (cases "matchesContext lines i ca False")
      case True
      have "findContextAfterPosition_loop lines ca s i = Some i"
        using inr True by (subst findContextAfterPosition_loop.simps) simp
      moreover have "(i \<le> e \<and> e < min (length lines) (s + 20) \<and> matchesContext lines e ca False
          \<and> (\<forall>k. i \<le> k \<and> k < e \<longrightarrow> \<not> matchesContext lines k ca False)) \<longleftrightarrow> e = i"
        using inr True by (metis le_neq_implies_less order_refl not_less_iff_gr_or_eq)
      ultimately show ?thesis by auto
    next
      case False
      have eq: "findContextAfterPosition_loop lines ca s i
                  = findContextAfterPosition_loop lines ca s (i + 1)"
        using inr False by (subst findContextAfterPosition_loop.simps) simp
      have ih: "findContextAfterPosition_loop lines ca s (i + 1) = Some e \<longleftrightarrow>
         (i + 1 \<le> e \<and> e < min (length lines) (s + 20) \<and> matchesContext lines e ca False
          \<and> (\<forall>k. i + 1 \<le> k \<and> k < e \<longrightarrow> \<not> matchesContext lines k ca False))"
        using 1 inr False by blast
      have "(i + 1 \<le> e \<and> e < min (length lines) (s + 20) \<and> matchesContext lines e ca False
          \<and> (\<forall>k. i + 1 \<le> k \<and> k < e \<longrightarrow> \<not> matchesContext lines k ca False))
        \<longleftrightarrow> (i \<le> e \<and> e < min (length lines) (s + 20) \<and> matchesContext lines e ca False
          \<and> (\<forall>k. i \<le> k \<and> k < e \<longrightarrow> \<not> matchesContext lines k ca False))"
        using False
        by (metis Suc_eq_plus1 Suc_leI Suc_le_lessD le_neq_implies_less less_or_eq_imp_le)
      with eq ih show ?thesis by simp
    qed
  qed
qed

lemma fcap_loop_None:
  "findContextAfterPosition_loop lines ca s i = None \<longleftrightarrow>
     (\<forall>k. i \<le> k \<and> k < min (length lines) (s + 20) \<longrightarrow> \<not> matchesContext lines k ca False)"
proof (induction lines ca s i rule: findContextAfterPosition_loop.induct)
  case (1 lines ca s i)
  show ?case
  proof (cases "i < min (length lines) (s + 20)")
    case False
    then show ?thesis
      by (subst findContextAfterPosition_loop.simps) auto
  next
    case inr: True
    show ?thesis
    proof (cases "matchesContext lines i ca False")
      case True
      have "findContextAfterPosition_loop lines ca s i = Some i"
        using inr True by (subst findContextAfterPosition_loop.simps) simp
      with inr True show ?thesis by auto
    next
      case False
      have eq: "findContextAfterPosition_loop lines ca s i
                  = findContextAfterPosition_loop lines ca s (i + 1)"
        using inr False by (subst findContextAfterPosition_loop.simps) simp
      have ih: "findContextAfterPosition_loop lines ca s (i + 1) = None \<longleftrightarrow>
         (\<forall>k. i + 1 \<le> k \<and> k < min (length lines) (s + 20)
              \<longrightarrow> \<not> matchesContext lines k ca False)"
        using 1 inr False by blast
      have "(\<forall>k. i + 1 \<le> k \<and> k < min (length lines) (s + 20)
              \<longrightarrow> \<not> matchesContext lines k ca False)
        \<longleftrightarrow> (\<forall>k. i \<le> k \<and> k < min (length lines) (s + 20)
              \<longrightarrow> \<not> matchesContext lines k ca False)"
        using False
        by (metis Suc_eq_plus1 Suc_leI le_neq_implies_less less_or_eq_imp_le Suc_le_lessD)
      with eq ih show ?thesis by simp
    qed
  qed
qed


lemma splice_insert: "splice xs p 0 items = take p xs @ items @ drop p xs"
  by (simp add: splice_def)

lemma splice_replace: "p \<le> e \<Longrightarrow> splice xs p (e - p) items = take p xs @ items @ drop e xs"
  by (simp add: splice_def)

text \<open>
  Claim C5. When the insertion point \<open>p\<close> of a block is found, the after-context
  \<open>ca\<close> is looked for at the positions \<open>p, \<dots>, p + 19\<close> of the working document. If
  it matches there, first at \<open>e\<close>, the lines \<open>p, \<dots>, e - 1\<close> are replaced by the lines
  of the block. If it matches at none of these positions, the lines of the block are
  inserted at \<open>p\<close> and every line of the working document is kept. No warning is added
  in either case.
\<close>

theorem after_context_span_resolution:
  assumes "getContextBefore cfg demoLines (b_start b) 3 = Some cb"
    and "ca = getContextAfter cfg demoLines (b_end b) 3"
    and "findInsertPosition result cb ca = Some p"
  shows "(\<forall>e. findContextAfterPosition result ca p = Some e \<longrightarrow>
            p \<le> e \<and> e < p + 20 \<and> e < length result \<and> matchesContext result e ca False
            \<and> (\<forall>k. p \<le> k \<and> k < e \<longrightarrow> \<not> matchesContext result k ca False)
            \<and> merge_block cfg demoLines (result, warnings) b
                = Some (take p result @ split_lines (b_content b) @ drop e result, warnings))
         \<and> (findContextAfterPosition result ca p = None \<longrightarrow>
            (\<forall>k. p \<le> k \<and> k < min (length result) (p + 20)
                 \<longrightarrow> \<not> matchesContext result k ca False)
            \<and> merge_block cfg demoLines (result, warnings) b
                = Some (take p result @ split_lines (b_content b) @ drop p result, warnings))"
proof -
  have found: "p \<le> e \<and> e < p + 20 \<and> e < length result \<and> matchesContext result e ca False
            \<and> (\<forall>k. p \<le> k \<and> k < e \<longrightarrow> \<not> matchesContext result k ca False)
            \<and> merge_block cfg demoLines (result, warnings) b
                = Some (take p result @ split_lines (b_content b) @ drop e result, warnings)"
    if e: "findContextAfterPosition result ca p = Some e" for e
  proof -
    have c: "p \<le> e \<and> e < min (length result) (p + 20) \<and> matchesContext result e ca False
        \<and> (\<forall>k. p \<le> k \<and> k < e \<longrightarrow> \<not> matchesContext result k ca False)"
      using e by (simp add: findContextAfterPosition_def fcap_loop_Some)
    have "merge_block cfg demoLines (result, warnings) b
            = Some (take p result @ split_lines (b_content b) @ drop e result, warnings)"
      using assms e c by (simp add: splice_replace)
    with c show ?thesis by simp
  qed
  have missing: "(\<forall>k. p \<le> k \<and> k < min (length result) (p + 20)
                 \<longrightarrow> \<not> matchesContext result k ca False)
            \<and> merge_block cfg demoLines (result, warnings) b
                = Some (take p result @ split_lines (b_content b) @ drop p result, warnings)"
    if n: "findContextAfterPosition result ca p = None"
  proof -
    have "\<forall>k. p \<le> k \<and> k < min (length result) (p + 20)
               \<longrightarrow> \<not> matchesContext result k ca False"
      using n by (simp add: findContextAfterPosition_def fcap_loop_None)
    moreover have "merge_block cfg demoLines (result, warnings) b
          = Some (take p result @ split_lines (b_content b) @ drop p result, warnings)"
      using assms n by (simp add: splice_insert)
    ultimately show ?thesis by simp
  qed
  from found missing show ?thesis by blast
qed


theorem after_context_span_resolution_witness:
  "getContextBefore getDefaultConfig demo_anchor (b_start block_anchor) 3
     = Some (map js [''import React;'', ''function App() {''])
   \<and> findInsertPosition main_anchor (map js [''import React;'', ''function App() {''])
         (getContextAfter getDefaultConfig demo_anchor (b_end block_anchor) 3) = Some 2
   \<and> findContextAfterPosition main_anchor
         (getContextAfter getDefaultConfig demo_anchor (b_end block_anchor) 3) 2 = Some 3
   \<and> merge_block getDefaultConfig demo_anchor (main_anchor, []) block_anchor
       = Some (demo_anchor, [])
   \<and> findInsertPosition main_no_after (map js [''import React;'', ''function App() {''])
         (getContextAfter getDefaultConfig demo_anchor (b_end block_anchor) 3) = Some 2
   \<and> findContextAfterPosition main_no_after
         (getContextAfter getDefaultConfig demo_anchor (b_end block_anchor) 3) 2 = None
   \<and> merge_block getDefaultConfig demo_anchor (main_no_after, []) block_anchor
       = Some (map js [''import React;'', ''function App() {'', ''{/* DEMO-INTENTIONAL-START */}'',
                       ''  return <Mock />;'', ''{/* DEMO-INTENTIONAL-END */}'',
                       ''  return <Live />;''], [])"
proof -
  let ?cb = "map js [''import React;'', ''function App() {'']"
  let ?ca = "getContextAfter getDefaultConfig demo_anchor (b_end block_anchor) 3"
  have ca: "?ca = map js [''}'', ''export default App;'']"
    by (simp add: demo_anchor_def block_anchor_def eval_defs)
  have h1: "getContextBefore getDefaultConfig demo_anchor (b_start block_anchor) 3 = Some ?cb"
    by (simp add: demo_anchor_def block_anchor_def eval_defs)
  have h2: "findInsertPosition main_anchor ?cb ?ca = Some 2"
    by (simp add: main_anchor_def eval_defs)
  have h3: "findContextAfterPosition main_anchor ?ca 2 = Some 3"
    unfolding ca by (simp add: main_anchor_def eval_defs)
  have h4: "findInsertPosition main_no_after ?cb ?ca = Some 2"
    by (simp add: main_no_after_def eval_defs)
  have h5: "findContextAfterPosition main_no_after ?ca 2 = None"
    unfolding ca by (simp add: main_no_after_def eval_defs)
  have lines: "split_lines (b_content block_anchor)
      = map js [''{/* DEMO-INTENTIONAL-START */}'', ''  return <Mock />;'',
                ''{/* DEMO-INTENTIONAL-END */}'']"
    by (simp add: block_anchor_def js_def)
  have "merge_block getDefaultConfig demo_anchor (main_anchor, []) block_anchor
          = Some (take 2 main_anchor @ split_lines (b_content block_anchor)
                  @ drop 3 main_anchor, [])"
    using after_context_span_resolution [OF h1 refl h2, of "[]"] h3 by blast
  then have r1: "merge_block getDefaultConfig demo_anchor (main_anchor, []) block_anchor
          = Some (demo_anchor, [])"
    unfolding lines by (simp add: main_anchor_def demo_anchor_def)
  have "merge_block getDefaultConfig demo_anchor (main_no_after, []) block_anchor
          = Some (take 2 main_no_after @ split_lines (b_content block_anchor)
                  @ drop 2 main_no_after, [])"
    using after_context_span_resolution [OF h1 refl h4, of "[]"] h5 by blast
  then have r2: "merge_block getDefaultConfig demo_anchor (main_no_after, []) block_anchor
       = Some (map js [''import React;'', ''function App() {'', ''{/* DEMO-INTENTIONAL-START */}'',
                       ''  return <Mock />;'', ''{/* DEMO-INTENTIONAL-END */}'',
                       ''  return <Live />;''], [])"
    unfolding lines by (simp add: main_no_after_def)
  from h1 h2 h3 r1 h4 h5 r2 show ?thesis by blast
qed


section \<open>A block whose context is missing\<close>

text \<open>
  One merge step. A block whose before-context matches at no position of the working
  document has no insertion point (\<open>findInsertPosition\<close> returns -1). The step for a
  block without insertion point appends an empty line, the warning comment and the
  lines of the block to the working document, and adds exactly one warning of type
  \<open>protected_block_context_missing\<close>, whose message names \<open>start\<close> and \<open>end\<close> of the
  block and whose preview is the first 100 code units of the block followed by three
  dots. The working document grows by the number of lines of the block plus two.
\<close>

lemma merge_block_missing_context:
  assumes "getContextBefore cfg demoLines (b_start b) 3 = Some cb"
    and "ca = getContextAfter cfg demoLines (b_end b) 3"
  shows "((\<forall>i<length result. \<not> matchesContext result i cb True)
            \<longrightarrow> findInsertPosition result cb ca = None)
         \<and> (findInsertPosition result cb ca = None \<longrightarrow>
              merge_block cfg demoLines (result, warnings) b
                = Some (result @ [[], WARNING_COMMENT] @ split_lines (b_content b),
                        warnings @ [\<lparr>w_type = js ''protected_block_context_missing'',
                           w_message = js ''Protected block at lines '' @ decimal (b_start b)
                             @ js ''-'' @ decimal (b_end b)
                             @ js '' has no matching context in main-app. Main may have removed this section.'',
                           w_block = take 100 (b_content b) @ js ''...''\<rparr>])
              \<and> length (result @ [[], WARNING_COMMENT] @ split_lines (b_content b))
                  = length result + 2 + length (split_lines (b_content b))
              \<and> length result
                  < length (result @ [[], WARNING_COMMENT] @ split_lines (b_content b)))"
proof -
  have "findInsertPosition result cb ca = None"
    if "\<forall>i<length result. \<not> matchesContext result i cb True"
    using that by (auto simp: findInsertPosition_def findInsertPosition_loop_None)
  moreover have "merge_block cfg demoLines (result, warnings) b
      = Some (result @ [[], WARNING_COMMENT] @ split_lines (b_content b),
              warnings @ [\<lparr>w_type = js ''protected_block_context_missing'',
                 w_message = js ''Protected block at lines '' @ decimal (b_start b)
                   @ js ''-'' @ decimal (b_end b)
                   @ js '' has no matching context in main-app. Main may have removed this section.'',
                 w_block = take 100 (b_content b) @ js ''...''\<rparr>])"
    if "findInsertPosition result cb ca = None"
    using that assms by (simp add: context_missing_message_def)
  ultimately show ?thesis by simp
qed

text \<open>
  Claim C3 on a failing input. The first block of the demo file has the before-context
  \<open>q\<close>, which the main file does not have: the block is appended after an empty line
  and the warning comment, and its warning is recorded. The second block is anchored
  after the first line of the main file, and its after-context is found in the inner
  lines of the appended block: the replacement span takes away ten lines of the main
  file, the empty line, the warning comment and the start marker of the first block.
  The merged text has 7 lines where the main file had 11, the first block is no longer
  part of it, and its warning is still reported.
\<close>

theorem appended_block_overwritten:
  "extractProtectedBlocks getDefaultConfig (join_lines demo_lost) = [block_lost_A, block_lost_B]
   \<and> getContextBefore getDefaultConfig demo_lost (b_start block_lost_A) 3 = Some [js ''q'']
   \<and> findInsertPosition main_lost [js ''q'']
         (getContextAfter getDefaultConfig demo_lost (b_end block_lost_A) 3) = None
   \<and> merge_block getDefaultConfig demo_lost (main_lost, []) block_lost_A
       = Some (main_lost
               @ [js '''',
                  js ''// '' @ [9888, 65039]
                  @ js '' WARNING: This block was preserved but context not found in main-app'',
                  js ''{/* DEMO-INTENTIONAL-START */}'', js ''foo'', js ''baz'',
                  js ''{/* DEMO-INTENTIONAL-END */}''],
               [\<lparr>w_type = js ''protected_block_context_missing'',
                 w_message = js ''Protected block at lines 1-4 has no matching context in main-app. Main may have removed this section.'',
                 w_block = js ''{/* DEMO-INTENTIONAL-START */}'' @ [10] @ js ''foo'' @ [10]
                           @ js ''baz'' @ [10] @ js ''{/* DEMO-INTENTIONAL-END */}...''\<rparr>])
   \<and> smartMergeFile getDefaultConfig (join_lines main_lost) (Some (join_lines demo_lost))
       = Some \<lparr>m_content = join_lines
                  [js ''a'', js ''{/* DEMO-INTENTIONAL-START */}'', js ''bar'',
                   js ''{/* DEMO-INTENTIONAL-END */}'', js ''foo'', js ''baz'',
                   js ''{/* DEMO-INTENTIONAL-END */}''],
                m_warnings =
                  [\<lparr>w_type = js ''protected_block_context_missing'',
                    w_message = js ''Protected block at lines 1-4 has no matching context in main-app. Main may have removed this section.'',
                    w_block = js ''{/* DEMO-INTENTIONAL-START */}'' @ [10] @ js ''foo'' @ [10]
                              @ js ''baz'' @ [10] @ js ''{/* DEMO-INTENTIONAL-END */}...''\<rparr>]\<rparr>
   \<and> \<not> str_includes
         (join_lines [js ''a'', js ''{/* DEMO-INTENTIONAL-START */}'', js ''bar'',
                      js ''{/* DEMO-INTENTIONAL-END */}'', js ''foo'', js ''baz'',
                      js ''{/* DEMO-INTENTIONAL-END */}''])
         (b_content block_lost_A)
   \<and> length [js ''a'', js ''{/* DEMO-INTENTIONAL-START */}'', js ''bar'',
              js ''{/* DEMO-INTENTIONAL-END */}'', js ''foo'', js ''baz'',
              js ''{/* DEMO-INTENTIONAL-END */}''] < length main_lost"
proof -
  let ?w = "\<lparr>w_type = js ''protected_block_context_missing'',
             w_message = js ''Protected block at lines 1-4 has no matching context in main-app. Main may have removed this section.'',
             w_block = js ''{/* DEMO-INTENTIONAL-START */}'' @ [10] @ js ''foo'' @ [10]
                       @ js ''baz'' @ [10] @ js ''{/* DEMO-INTENTIONAL-END */}...''\<rparr>"
  let ?r1 = "main_lost
               @ [js '''',
                  js ''// '' @ [9888, 65039]
                  @ js '' WARNING: This block was preserved but context not found in main-app'',
                  js ''{/* DEMO-INTENTIONAL-START */}'', js ''foo'', js ''baz'',
                  js ''{/* DEMO-INTENTIONAL-END */}'']"
  let ?r2 = "[js ''a'', js ''{/* DEMO-INTENTIONAL-START */}'', js ''bar'',
              js ''{/* DEMO-INTENTIONAL-END */}'', js ''foo'', js ''baz'',
              js ''{/* DEMO-INTENTIONAL-END */}'']"
  have ex: "extractProtectedBlocks getDefaultConfig (join_lines demo_lost)
              = [block_lost_A, block_lost_B]"
    by (simp add: demo_lost_def block_lost_A_def block_lost_B_def eval_defs)
  have sd: "split_lines (join_lines demo_lost) = demo_lost"
    by (simp add: demo_lost_def js_def)
  have sm: "split_lines (join_lines main_lost) = main_lost"
    by (simp add: main_lost_def js_def)
  have cb: "getContextBefore getDefaultConfig demo_lost (b_start block_lost_A) 3 = Some [js ''q'']"
    by (simp add: demo_lost_def block_lost_A_def eval_defs)
  have nf: "findInsertPosition main_lost [js ''q'']
         (getContextAfter getDefaultConfig demo_lost (b_end block_lost_A) 3) = None"
    by (simp add: main_lost_def eval_defs)
  have b1: "merge_block getDefaultConfig demo_lost (main_lost, []) block_lost_A
              = Some (?r1, [?w])"
    by (simp add: demo_lost_def main_lost_def block_lost_A_def eval_defs)
  have b2: "merge_block getDefaultConfig demo_lost (?r1, [?w]) block_lost_B = Some (?r2, [?w])"
    by (simp add: demo_lost_def main_lost_def block_lost_B_def eval_defs)
  have m: "smartMergeFile getDefaultConfig (join_lines main_lost) (Some (join_lines demo_lost))
       = Some \<lparr>m_content = join_lines ?r2, m_warnings = [?w]\<rparr>"
  proof -
    have "merge_blocks getDefaultConfig demo_lost (main_lost, []) [block_lost_A, block_lost_B]
            = Some (?r2, [?w])"
      by (simp only: merge_blocks.simps b1 b2 option.case)
    then show ?thesis
      by (simp add: smartMergeFile_def intelligentMerge_def ex sd sm
          del: merge_blocks.simps merge_block.simps)
  qed
  have n: "\<not> str_includes (join_lines ?r2) (b_content block_lost_A)"
    by (simp add: block_lost_A_def js_def startsWith_def)
  have l: "length ?r2 < length main_lost"
    by (simp add: main_lost_def)
  from ex cb nf b1 m n l show ?thesis by blast
qed


section \<open>The context sampler\<close>

lemma getContextAfter_loop_filter:
  "getContextAfter_loop cfg lines position count i acc
     = acc @ filter (eligible cfg)
               (map trim (take (min (length lines) (position + count + 1) - i) (drop i lines)))"
proof (induction cfg lines position count i acc rule: getContextAfter_loop.induct)
  case (1 cfg lines position count i contextLines)
  let ?bound = "min (length lines) (position + count + 1)"
  show ?case
  proof (cases "i < ?bound")
    case False
    then have "?bound - i = 0" by linarith
    moreover have "getContextAfter_loop cfg lines position count i contextLines = contextLines"
      using False by (subst getContextAfter_loop.simps) (simp del: min_less_iff_conj)
    ultimately show ?thesis by simp
  next
    case True
    then have il: "i < length lines" by simp
    have d: "drop i lines = lines ! i # drop (i + 1) lines"
      using il by (simp add: Cons_nth_drop_Suc)
    have t: "?bound - i = Suc (?bound - (i + 1))"
      using True by linarith
    have "getContextAfter_loop cfg lines position count i contextLines
            = getContextAfter_loop cfg lines position count (i + 1)
                (if trim (lines ! i) \<noteq> [] \<and> \<not> isMarkerLine cfg (trim (lines ! i))
                 then contextLines @ [trim (lines ! i)] else contextLines)"
      using True by (subst getContextAfter_loop.simps) (simp add: Let_def del: min_less_iff_conj)
    also have "\<dots> = (if trim (lines ! i) \<noteq> [] \<and> \<not> isMarkerLine cfg (trim (lines ! i))
                 then contextLines @ [trim (lines ! i)] else contextLines)
               @ filter (eligible cfg) (map trim (take (?bound - (i + 1)) (drop (i + 1) lines)))"
      using "1.IH" [OF True refl] by simp
    also have "\<dots> = contextLines
               @ filter (eligible cfg) (map trim (take (?bound - i) (drop i lines)))"
      unfolding t d by (simp add: eligible_def)
    finally show ?thesis .
  qed
qed

lemma getContextAfter_filter:
  "getContextAfter cfg lines position count
     = filter (eligible cfg) (map trim (take count (drop (position + 1) lines)))"
proof -
  have "take (min (length lines) (position + count + 1) - (position + 1))
          (drop (position + 1) lines) = take count (drop (position + 1) lines)"
    by (cases "position + count + 1 \<le> length lines") (simp_all add: min_def)
  then show ?thesis
    by (simp add: getContextAfter_def getContextAfter_loop_filter)
qed

lemma getContextBefore_loop_filter:
  "getContextBefore_loop cfg lines position i acc
     = (if position \<le> length lines \<or> position \<le> i
        then Some (acc @ filter (eligible cfg)
                           (map trim (take (position - i) (drop i lines))))
        else None)"
proof (induction cfg lines position i acc rule: getContextBefore_loop.induct)
  case (1 cfg lines position i contextLines)
  show ?case
  proof (cases "i < position")
    case False
    then show ?thesis
      by (subst getContextBefore_loop.simps) simp
  next
    case True
    show ?thesis
    proof (cases "i < length lines")
      case False
      then show ?thesis
        using True by (subst getContextBefore_loop.simps) simp
    next
      case il: True
      have d: "drop i lines = lines ! i # drop (i + 1) lines"
        using il by (simp add: Cons_nth_drop_Suc)
      have t: "position - i = Suc (position - (i + 1))"
        using True by simp
      have c: "(position \<le> length lines \<or> position \<le> i + 1)
                 \<longleftrightarrow> (position \<le> length lines \<or> position \<le> i)"
        using True il by auto
      have "getContextBefore_loop cfg lines position i contextLines
            = getContextBefore_loop cfg lines position (i + 1)
                (if trim (lines ! i) \<noteq> [] \<and> \<not> isMarkerLine cfg (trim (lines ! i))
                 then contextLines @ [trim (lines ! i)] else contextLines)"
        using True il by (subst getContextBefore_loop.simps) (simp add: Let_def)
      also have "\<dots> = (if position \<le> length lines \<or> position \<le> i + 1
          then Some ((if trim (lines ! i) \<noteq> [] \<and> \<not> isMarkerLine cfg (trim (lines ! i))
                      then contextLines @ [trim (lines ! i)] else contextLines)
               @ filter (eligible cfg)
                   (map trim (take (position - (i + 1)) (drop (i + 1) lines))))
          else None)"
        using "1.IH" [OF True il refl] by simp
      also have "\<dots> = (if position \<le> length lines \<or> position \<le> i
          then Some (contextLines
               @ filter (eligible cfg) (map trim (take (position - i) (drop i lines))))
          else None)"
        unfolding c t d by (simp add: eligible_def)
      finally show ?thesis .
    qed
  qed
qed

lemma getContextBefore_filter:
  "getContextBefore cfg lines position count
     = (if position \<le> length lines \<or> count = 0 \<or> position = 0
        then Some (filter (eligible cfg)
                     (map trim (take (min count position) (drop (position - count) lines))))
        else None)"
proof -
  have s: "(if count \<le> position then position - count else 0) = position - count"
    by simp
  have c: "position \<le> position - count \<longleftrightarrow> count = 0 \<or> position = 0"
    by auto
  have m: "position - (position - count) = min count position"
    by auto
  show ?thesis
    unfolding getContextBefore_def s getContextBefore_loop_filter c m by simp
qed


text \<open>
  Claim C6, as amended. The window sampled before (after) a position holds the trimmed
  forms of the lines that are not empty and not marker lines among the \<open>count\<close> lines
  immediately before (after) the position, in the order of the document. The range is
  fixed: a blank or marker line in it is skipped and still uses up its place, and the
  walk goes no farther out. The window has at most \<open>count\<close> lines, none of them empty
  or a marker line.
\<close>

theorem context_window_fixed_range:
  "getContextAfter cfg lines position count
     = filter (eligible cfg) (map trim (take count (drop (position + 1) lines)))
   \<and> (position \<le> length lines \<longrightarrow>
        getContextBefore cfg lines position count
          = Some (filter (eligible cfg)
                    (map trim (take (min count position) (drop (position - count) lines)))))
   \<and> length (getContextAfter cfg lines position count) \<le> count
   \<and> (\<forall>l\<in>set (getContextAfter cfg lines position count). l \<noteq> [] \<and> \<not> isMarkerLine cfg l)
   \<and> (\<forall>w. getContextBefore cfg lines position count = Some w \<longrightarrow>
          length w \<le> count \<and> (\<forall>l\<in>set w. l \<noteq> [] \<and> \<not> isMarkerLine cfg l))"
proof -
  let ?after = "filter (eligible cfg) (map trim (take count (drop (position + 1) lines)))"
  let ?before = "filter (eligible cfg)
                   (map trim (take (min count position) (drop (position - count) lines)))"
  have a: "getContextAfter cfg lines position count = ?after"
    by (rule getContextAfter_filter)
  have la: "length ?after \<le> count"
    by (rule order_trans [OF length_filter_le]) simp
  have ea: "\<forall>l\<in>set ?after. l \<noteq> [] \<and> \<not> isMarkerLine cfg l"
    by (simp add: eligible_def)
  have lb: "length ?before \<le> count"
    by (rule order_trans [OF length_filter_le]) simp
  have eb: "\<forall>l\<in>set ?before. l \<noteq> [] \<and> \<not> isMarkerLine cfg l"
    by (simp add: eligible_def)
  have b1: "getContextBefore cfg lines position count = Some ?before"
    if "position \<le> length lines"
    using that by (simp add: getContextBefore_filter)
  have b2: "length w \<le> count \<and> (\<forall>l\<in>set w. l \<noteq> [] \<and> \<not> isMarkerLine cfg l)"
    if "getContextBefore cfg lines position count = Some w" for w
  proof -
    have "w = ?before"
      using that unfolding getContextBefore_filter by (simp split: if_splits)
    then show ?thesis using lb eb by simp
  qed
  show ?thesis
    unfolding a using la ea b1 b2 by blast
qed

theorem context_window_fixed_range_witness:
  "(2::nat) \<le> length demo_anchor
   \<and> getContextBefore getDefaultConfig demo_anchor 2 3
       = Some (map js [''import React;'', ''function App() {''])
   \<and> getContextBefore getDefaultConfig demo_anchor 2 3
       = Some (filter (eligible getDefaultConfig)
                 (map trim (take (min 3 2) (drop (2 - 3) demo_anchor))))
   \<and> length (map js [''import React;'', ''function App() {'']) \<le> 3
   \<and> js ''import React;'' \<noteq> [] \<and> \<not> isMarkerLine getDefaultConfig (js ''import React;'')
   \<and> js ''function App() {'' \<noteq> []
   \<and> \<not> isMarkerLine getDefaultConfig (js ''function App() {'')
   \<and> getContextAfter getDefaultConfig demo_anchor 4 3 = map js [''}'', ''export default App;'']"
proof -
  have h: "(2::nat) \<le> length demo_anchor"
    by (simp add: demo_anchor_def)
  have v: "getContextBefore getDefaultConfig demo_anchor 2 3
             = Some (map js [''import React;'', ''function App() {''])"
    by (simp add: demo_anchor_def eval_defs)
  have a: "getContextAfter getDefaultConfig demo_anchor 4 3 = map js [''}'', ''export default App;'']"
    by (simp add: demo_anchor_def eval_defs)
  note t = context_window_fixed_range [of getDefaultConfig demo_anchor 2 3]
  have f: "getContextBefore getDefaultConfig demo_anchor 2 3
       = Some (filter (eligible getDefaultConfig)
                 (map trim (take (min 3 2) (drop (2 - 3) demo_anchor))))"
    using t h by blast
  have w: "length (map js [''import React;'', ''function App() {'']) \<le> 3
       \<and> (\<forall>l\<in>set (map js [''import React;'', ''function App() {'']).
              l \<noteq> [] \<and> \<not> isMarkerLine getDefaultConfig l)"
    using t v by blast
  then have "js ''import React;'' \<noteq> [] \<and> \<not> isMarkerLine getDefaultConfig (js ''import React;'')
       \<and> js ''function App() {'' \<noteq> []
       \<and> \<not> isMarkerLine getDefaultConfig (js ''function App() {'')"
    by simp
  with h v f w a show ?thesis by blast
qed

text \<open>
  Claim C6 as stated fails: three blank lines on each side of the block leave both
  windows empty, although a line that is neither blank nor a marker line lies four
  lines away on each side, well inside three times the window of 3.
\<close>

theorem no_budget_compensation_counterexample:
  "getContextBefore getDefaultConfig demo_gap 4 3 = Some []
   \<and> eligible getDefaultConfig (trim (demo_gap ! 0)) \<and> (4::nat) - 0 \<le> 3 * 3
   \<and> getContextAfter getDefaultConfig demo_gap 6 3 = []
   \<and> eligible getDefaultConfig (trim (demo_gap ! 10)) \<and> (10::nat) - 6 \<le> 3 * 3"
  by (simp add: demo_gap_def eligible_def eval_defs)


section \<open>The extractor\<close>

lemma take_drop_snoc:
  assumes "s \<le> i" "i < length xs"
  shows "take (i - s) (drop s xs) @ [xs ! i] = take (Suc i - s) (drop s xs)"
proof -
  have "i - s < length (drop s xs)" using assms by simp
  then have "take (Suc (i - s)) (drop s xs) = take (i - s) (drop s xs) @ [drop s xs ! (i - s)]"
    by (rule take_Suc_conv_app_nth)
  moreover have "drop s xs ! (i - s) = xs ! i" using assms by simp
  moreover have "Suc (i - s) = Suc i - s" using assms by simp
  ultimately show ?thesis by simp
qed

lemma extract_loop_inv:
  assumes "rest = drop i lines"
    and "inBlock \<longrightarrow> blockStart < i \<and> some_includes (start_markers cfg) (lines ! blockStart)
           \<and> currentBlock = take (i - blockStart) (drop blockStart lines)
           \<and> (\<forall>j. blockStart < j \<and> j < i \<longrightarrow> \<not> some_includes (end_markers cfg) (lines ! j))"
    and "\<forall>b\<in>set blocks. well_formed_block cfg lines b
           \<and> b_end b < (if inBlock then blockStart else i)"
    and "sorted_wrt (\<lambda>a b. b_end a < b_start b) blocks"
  shows "(\<forall>b\<in>set (extract_loop cfg rest i inBlock currentBlock blockStart blocks).
            well_formed_block cfg lines b)
         \<and> sorted_wrt (\<lambda>a b. b_end a < b_start b)
             (extract_loop cfg rest i inBlock currentBlock blockStart blocks)"
  using assms
proof (induction rest arbitrary: i inBlock currentBlock blockStart blocks)
  case Nil
  then show ?case by simp
next
  case (Cons line rest)
  have il: "i < length lines"
    using Cons.prems(1) by (metis drop_all list.distinct(1) not_le_imp_less)
  have line: "line = lines ! i" and rest: "rest = drop (i + 1) lines"
    using Cons.prems(1) il by (simp_all add: Cons_nth_drop_Suc [symmetric])
  show ?case
  proof (cases "\<not> inBlock \<and> some_includes (start_markers cfg) line")
    case True
    have eq: "extract_loop cfg (line # rest) i inBlock currentBlock blockStart blocks
                = extract_loop cfg rest (i + 1) True [line] i blocks"
      using True by simp
    have cur: "[line] = take (i + 1 - i) (drop i lines)"
      using il line by (simp add: take_Suc_conv_app_nth Cons_nth_drop_Suc [symmetric])
    show ?thesis
      unfolding eq
    proof (rule Cons.IH [OF rest])
      show "True \<longrightarrow> i < i + 1 \<and> some_includes (start_markers cfg) (lines ! i)
           \<and> [line] = take (i + 1 - i) (drop i lines)
           \<and> (\<forall>j. i < j \<and> j < i + 1 \<longrightarrow> \<not> some_includes (end_markers cfg) (lines ! j))"
        using True line cur by auto
      show "\<forall>b\<in>set blocks. well_formed_block cfg lines b \<and> b_end b < (if True then i else i + 1)"
        using Cons.prems(3) True by auto
      show "sorted_wrt (\<lambda>a b. b_end a < b_start b) blocks"
        by (rule Cons.prems(4))
    qed
  next
    case nostart: False
    show ?thesis
    proof (cases inBlock)
      case False
      have eq: "extract_loop cfg (line # rest) i inBlock currentBlock blockStart blocks
                  = extract_loop cfg rest (i + 1) inBlock currentBlock blockStart blocks"
        using False nostart by simp
      show ?thesis
        unfolding eq
      proof (rule Cons.IH [OF rest])
        show "inBlock \<longrightarrow> blockStart < i + 1
           \<and> some_includes (start_markers cfg) (lines ! blockStart)
           \<and> currentBlock = take (i + 1 - blockStart) (drop blockStart lines)
           \<and> (\<forall>j. blockStart < j \<and> j < i + 1
                  \<longrightarrow> \<not> some_includes (end_markers cfg) (lines ! j))"
          using False by simp
        show "\<forall>b\<in>set blocks. well_formed_block cfg lines b
                \<and> b_end b < (if inBlock then blockStart else i + 1)"
          using Cons.prems(3) False by auto
        show "sorted_wrt (\<lambda>a b. b_end a < b_start b) blocks"
          by (rule Cons.prems(4))
      qed
    next
      case True
      from Cons.prems(2) True have bs: "blockStart < i"
        and sm: "some_includes (start_markers cfg) (lines ! blockStart)"
        and cur: "currentBlock = take (i - blockStart) (drop blockStart lines)"
        and noend: "\<forall>j. blockStart < j \<and> j < i \<longrightarrow> \<not> some_includes (end_markers cfg) (lines ! j)"
        by simp_all
      have cur': "currentBlock @ [line] = take (i + 1 - blockStart) (drop blockStart lines)"
        using take_drop_snoc [of blockStart i lines] bs il cur line by simp
      show ?thesis
      proof (cases "some_includes (end_markers cfg) line")
        case False
        have eq: "extract_loop cfg (line # rest) i inBlock currentBlock blockStart blocks
                  = extract_loop cfg rest (i + 1) True (currentBlock @ [line]) blockStart blocks"
          using True False by simp
        show ?thesis
          unfolding eq
        proof (rule Cons.IH [OF rest])
          have "\<not> some_includes (end_markers cfg) (lines ! j)" if "blockStart < j" "j < i + 1" for j
          proof (cases "j = i")
            case True
            then show ?thesis using False line by simp
          next
            case False
            then show ?thesis using that noend by simp
          qed
          then show "True \<longrightarrow> blockStart < i + 1
             \<and> some_includes (start_markers cfg) (lines ! blockStart)
             \<and> currentBlock @ [line] = take (i + 1 - blockStart) (drop blockStart lines)
             \<and> (\<forall>j. blockStart < j \<and> j < i + 1
                    \<longrightarrow> \<not> some_includes (end_markers cfg) (lines ! j))"
            using bs sm cur' by simp
          show "\<forall>b\<in>set blocks. well_formed_block cfg lines b
                  \<and> b_end b < (if True then blockStart else i + 1)"
            using Cons.prems(3) True by auto
          show "sorted_wrt (\<lambda>a b. b_end a < b_start b) blocks"
            by (rule Cons.prems(4))
        qed
      next
        case endm: True
        let ?nb = "\<lparr>b_start = blockStart, b_end = i,
                    b_content = join_lines (currentBlock @ [line])\<rparr>"
        have eq: "extract_loop cfg (line # rest) i inBlock currentBlock blockStart blocks
                  = extract_loop cfg rest (i + 1) False [] blockStart (blocks @ [?nb])"
          using True endm by simp
        have "Suc i - blockStart = Suc (i - blockStart)"
          using bs by simp
        then have wf: "well_formed_block cfg lines ?nb"
          using bs il sm endm line noend cur'
          by (simp add: well_formed_block_def)
        have old: "\<forall>b\<in>set blocks. well_formed_block cfg lines b \<and> b_end b < blockStart"
          using Cons.prems(3) True by simp
        show ?thesis
          unfolding eq
        proof (rule Cons.IH [OF rest])
          show "False \<longrightarrow> blockStart < i + 1
             \<and> some_includes (start_markers cfg) (lines ! blockStart)
             \<and> [] = take (i + 1 - blockStart) (drop blockStart lines)
             \<and> (\<forall>j. blockStart < j \<and> j < i + 1
                    \<longrightarrow> \<not> some_includes (end_markers cfg) (lines ! j))"
            by simp
          show "\<forall>b\<in>set (blocks @ [?nb]). well_formed_block cfg lines b
                  \<and> b_end b < (if False then blockStart else i + 1)"
            using old wf bs by auto
          show "sorted_wrt (\<lambda>a b. b_end a < b_start b) (blocks @ [?nb])"
            using Cons.prems(4) old by (simp add: sorted_wrt_append)
        qed
      qed
    qed
  qed
qed

lemma extract_well_formed:
  "(\<forall>b\<in>set (extractProtectedBlocks cfg content). well_formed_block cfg (split_lines content) b)
   \<and> sorted_wrt (\<lambda>a b. b_end a < b_start b) (extractProtectedBlocks cfg content)"
  unfolding extractProtectedBlocks_def
  by (rule extract_loop_inv) simp_all


lemma sorted_wrt_cases:
  "sorted_wrt R xs \<Longrightarrow> x \<in> set xs \<Longrightarrow> y \<in> set xs \<Longrightarrow> x = y \<or> R x y \<or> R y x"
  by (induction xs) auto

lemma well_formed_block_lines:
  assumes "well_formed_block cfg (split_lines content) b"
  shows "split_lines (b_content b)
           = take (b_end b - b_start b + 1) (drop (b_start b) (split_lines content))"
proof -
  let ?ls = "take (b_end b - b_start b + 1) (drop (b_start b) (split_lines content))"
  have "b_start b < length (split_lines content)"
    using assms by (simp add: well_formed_block_def)
  then have ne: "?ls \<noteq> []" by simp
  have "\<forall>l\<in>set ?ls. 10 \<notin> set l"
    using split_lines_no_newline by (meson in_set_dropD in_set_takeD)
  then have "split_lines (join_lines ?ls) = ?ls"
    using ne by (rule split_join [rotated])
  then show ?thesis
    using assms by (simp add: well_formed_block_def)
qed

lemma extract_loop_keeps:
  "set blocks \<subseteq> set (extract_loop cfg rest i inBlock currentBlock blockStart blocks)"
proof (induction rest arbitrary: i inBlock currentBlock blockStart blocks)
  case Nil
  then show ?case by simp
next
  case (Cons line rest)
  show ?case
  proof (cases "inBlock \<and> some_includes (end_markers cfg) line")
    case True
    let ?nb = "\<lparr>b_start = blockStart, b_end = i,
                b_content = join_lines (currentBlock @ [line])\<rparr>"
    have "extract_loop cfg (line # rest) i inBlock currentBlock blockStart blocks
            = extract_loop cfg rest (i + 1) False [] blockStart (blocks @ [?nb])"
      using True by simp
    moreover have "set (blocks @ [?nb])
        \<subseteq> set (extract_loop cfg rest (i + 1) False [] blockStart (blocks @ [?nb]))"
      by (rule Cons)
    ultimately show ?thesis by auto
  next
    case False
    then show ?thesis using Cons by auto
  qed
qed

lemma extract_loop_covers:
  assumes "rest = drop i lines"
    and "inBlock \<longrightarrow> blockStart < i
           \<and> (\<forall>k. blockStart < k \<and> k < i \<longrightarrow> \<not> some_includes (end_markers cfg) (lines ! k))"
    and "(if inBlock then blockStart else i) \<le> j" and "j < length lines"
    and "some_includes (start_markers cfg) (lines ! j)"
  shows "(\<exists>b\<in>set (extract_loop cfg rest i inBlock currentBlock blockStart blocks).
            b_start b \<le> j \<and> j \<le> b_end b)
         \<or> (\<forall>k. j < k \<and> k < length lines \<longrightarrow> \<not> some_includes (end_markers cfg) (lines ! k))"
  using assms
proof (induction rest arbitrary: i inBlock currentBlock blockStart blocks)
  case Nil
  then have len: "length lines \<le> i" by simp
  show ?case
  proof (cases inBlock)
    case True
    have "\<not> some_includes (end_markers cfg) (lines ! k)" if "j < k" "k < length lines" for k
      using Nil.prems(2,3) True that len by auto
    then show ?thesis by blast
  next
    case False
    then show ?thesis using Nil.prems(3,4) len by auto
  qed
next
  case (Cons line rest)
  have il: "i < length lines"
    using Cons.prems(1) by (metis drop_all list.distinct(1) not_le_imp_less)
  have line: "line = lines ! i" and rest: "rest = drop (i + 1) lines"
    using Cons.prems(1) il by (simp_all add: Cons_nth_drop_Suc [symmetric])
  show ?case
  proof (cases "\<not> inBlock \<and> some_includes (start_markers cfg) line")
    case True
    have eq: "extract_loop cfg (line # rest) i inBlock currentBlock blockStart blocks
                = extract_loop cfg rest (i + 1) True [line] i blocks"
      using True by simp
    show ?thesis
      unfolding eq
    proof (rule Cons.IH [OF rest])
      show "True \<longrightarrow> i < i + 1
           \<and> (\<forall>k. i < k \<and> k < i + 1 \<longrightarrow> \<not> some_includes (end_markers cfg) (lines ! k))"
        by auto
      show "(if True then i else i + 1) \<le> j" using Cons.prems(3) True by simp
      show "j < length lines" by (rule Cons.prems(4))
      show "some_includes (start_markers cfg) (lines ! j)" by (rule Cons.prems(5))
    qed
  next
    case nostart: False
    show ?thesis
    proof (cases inBlock)
      case False
      have eq: "extract_loop cfg (line # rest) i inBlock currentBlock blockStart blocks
                  = extract_loop cfg rest (i + 1) inBlock currentBlock blockStart blocks"
        using False nostart by simp
      have "j \<noteq> i" using nostart False line Cons.prems(5) by auto
      then have ij: "i + 1 \<le> j" using Cons.prems(3) False by simp
      show ?thesis
        unfolding eq
      proof (rule Cons.IH [OF rest])
        show "inBlock \<longrightarrow> blockStart < i + 1
           \<and> (\<forall>k. blockStart < k \<and> k < i + 1
                  \<longrightarrow> \<not> some_includes (end_markers cfg) (lines ! k))"
          using False by simp
        show "(if inBlock then blockStart else i + 1) \<le> j" using ij False by simp
        show "j < length lines" by (rule Cons.prems(4))
        show "some_includes (start_markers cfg) (lines ! j)" by (rule Cons.prems(5))
      qed
    next
      case True
      from Cons.prems(2,3) True have bs: "blockStart < i" and bj: "blockStart \<le> j"
        and noend: "\<forall>k. blockStart < k \<and> k < i \<longrightarrow> \<not> some_includes (end_markers cfg) (lines ! k)"
        by simp_all
      show ?thesis
      proof (cases "some_includes (end_markers cfg) line")
        case False
        have eq: "extract_loop cfg (line # rest) i inBlock currentBlock blockStart blocks
                  = extract_loop cfg rest (i + 1) True (currentBlock @ [line]) blockStart blocks"
          using True False by simp
        show ?thesis
          unfolding eq
        proof (rule Cons.IH [OF rest])
          have "\<not> some_includes (end_markers cfg) (lines ! k)" if "blockStart < k" "k < i + 1" for k
          proof (cases "k = i")
            case True
            then show ?thesis using False line by simp
          next
            case False
            then show ?thesis using that noend by simp
          qed
          then show "True \<longrightarrow> blockStart < i + 1
             \<and> (\<forall>k. blockStart < k \<and> k < i + 1
                    \<longrightarrow> \<not> some_includes (end_markers cfg) (lines ! k))"
            using bs by simp
          show "(if True then blockStart else i + 1) \<le> j" using bj by simp
          show "j < length lines" by (rule Cons.prems(4))
          show "some_includes (start_markers cfg) (lines ! j)" by (rule Cons.prems(5))
        qed
      next
        case endm: True
        let ?nb = "\<lparr>b_start = blockStart, b_end = i,
                    b_content = join_lines (currentBlock @ [line])\<rparr>"
        have eq: "extract_loop cfg (line # rest) i inBlock currentBlock blockStart blocks
                  = extract_loop cfg rest (i + 1) False [] blockStart (blocks @ [?nb])"
          using True endm by simp
        show ?thesis
        proof (cases "j \<le> i")
          case True
          have "?nb \<in> set (extract_loop cfg rest (i + 1) False [] blockStart (blocks @ [?nb]))"
            using extract_loop_keeps [of "blocks @ [?nb]" cfg rest "i + 1" False "[]" blockStart]
            by auto
          moreover have "b_start ?nb \<le> j \<and> j \<le> b_end ?nb" using bj True by simp
          ultimately show ?thesis unfolding eq by blast
        next
          case False
          show ?thesis
            unfolding eq
          proof (rule Cons.IH [OF rest])
            show "False \<longrightarrow> blockStart < i + 1
               \<and> (\<forall>k. blockStart < k \<and> k < i + 1
                      \<longrightarrow> \<not> some_includes (end_markers cfg) (lines ! k))"
              by simp
            show "(if False then blockStart else i + 1) \<le> j" using False by simp
            show "j < length lines" by (rule Cons.prems(4))
            show "some_includes (start_markers cfg) (lines ! j)" by (rule Cons.prems(5))
          qed
        qed
      qed
    qed
  qed
qed

lemma extract_covers:
  assumes "j < length (split_lines content)"
    and "some_includes (start_markers cfg) (split_lines content ! j)"
  shows "(\<exists>b\<in>set (extractProtectedBlocks cfg content). b_start b \<le> j \<and> j \<le> b_end b)
         \<or> (\<forall>k. j < k \<and> k < length (split_lines content)
                \<longrightarrow> \<not> some_includes (end_markers cfg) (split_lines content ! k))"
  unfolding extractProtectedBlocks_def
  by (rule extract_loop_covers [where lines = "split_lines content"]) (use assms in simp_all)


lemma well_formed_block_unique:
  assumes "well_formed_block cfg lines x" and "well_formed_block cfg lines c"
    and "b_start c = b_start x"
  shows "c = x"
proof -
  have e: "b_end c = b_end x"
  proof (rule ccontr)
    assume "b_end c \<noteq> b_end x"
    then consider "b_end c < b_end x" | "b_end x < b_end c" by linarith
    then show False
    proof cases
      case 1
      then have "b_end c \<in> {b_start x <..< b_end x}"
        using assms by (simp add: well_formed_block_def)
      then show False using assms(1,2) by (auto simp: well_formed_block_def)
    next
      case 2
      then have "b_end x \<in> {b_start c <..< b_end c}"
        using assms by (simp add: well_formed_block_def)
      then show False using assms(1,2) by (auto simp: well_formed_block_def)
    qed
  qed
  then have "b_content c = b_content x"
    using assms by (simp add: well_formed_block_def)
  with e assms(3) show ?thesis by simp
qed

lemma extraction_member:
  assumes wx: "\<forall>b\<in>set xs. well_formed_block cfg lines b"
    and sx: "sorted_wrt (\<lambda>a b. b_end a < b_start b) xs"
    and wy: "\<forall>b\<in>set ys. well_formed_block cfg lines b"
    and cy: "\<forall>j<length lines. some_includes (start_markers cfg) (lines ! j) \<longrightarrow>
               (\<exists>b\<in>set ys. b_start b \<le> j \<and> j \<le> b_end b)
               \<or> (\<forall>k. j < k \<and> k < length lines
                      \<longrightarrow> \<not> some_includes (end_markers cfg) (lines ! k))"
    and ih: "\<forall>c. b_start c < b_start x \<longrightarrow> (c \<in> set xs \<longleftrightarrow> c \<in> set ys)"
    and x: "x \<in> set xs"
  shows "x \<in> set ys"
proof -
  have wfx: "well_formed_block cfg lines x" using wx x by blast
  then have s: "b_start x < b_end x" "b_end x < length lines"
    "some_includes (start_markers cfg) (lines ! b_start x)"
    "some_includes (end_markers cfg) (lines ! b_end x)"
    by (simp_all add: well_formed_block_def)
  have "b_start x < length lines" using s by simp
  then have "(\<exists>b\<in>set ys. b_start b \<le> b_start x \<and> b_start x \<le> b_end b)
      \<or> (\<forall>k. b_start x < k \<and> k < length lines
             \<longrightarrow> \<not> some_includes (end_markers cfg) (lines ! k))"
    using cy s(3) by blast
  then obtain c where c: "c \<in> set ys" "b_start c \<le> b_start x" "b_start x \<le> b_end c"
    using s by blast
  show ?thesis
  proof (cases "b_start c = b_start x")
    case True
    have "well_formed_block cfg lines c" using wy c(1) by blast
    then have "c = x" using wfx True by (metis well_formed_block_unique)
    with c(1) show ?thesis by simp
  next
    case False
    then have lt: "b_start c < b_start x" using c(2) by simp
    then have cx: "c \<in> set xs" using ih c(1) by blast
    have "c = x \<or> b_end c < b_start x \<or> b_end x < b_start c"
      using sorted_wrt_cases [OF sx cx x] by simp
    then show ?thesis using lt c(3) s(1) by auto
  qed
qed

lemma extraction_unique:
  assumes wx: "\<forall>b\<in>set xs. well_formed_block cfg lines b"
    and sx: "sorted_wrt (\<lambda>a b. b_end a < b_start b) xs"
    and cx: "\<forall>j<length lines. some_includes (start_markers cfg) (lines ! j) \<longrightarrow>
               (\<exists>b\<in>set xs. b_start b \<le> j \<and> j \<le> b_end b)
               \<or> (\<forall>k. j < k \<and> k < length lines
                      \<longrightarrow> \<not> some_includes (end_markers cfg) (lines ! k))"
    and wy: "\<forall>b\<in>set ys. well_formed_block cfg lines b"
    and sy: "sorted_wrt (\<lambda>a b. b_end a < b_start b) ys"
    and cy: "\<forall>j<length lines. some_includes (start_markers cfg) (lines ! j) \<longrightarrow>
               (\<exists>b\<in>set ys. b_start b \<le> j \<and> j \<le> b_end b)
               \<or> (\<forall>k. j < k \<and> k < length lines
                      \<longrightarrow> \<not> some_includes (end_markers cfg) (lines ! k))"
  shows "xs = ys"
proof -
  have mem: "x \<in> set xs \<longleftrightarrow> x \<in> set ys" for x
  proof (induction "b_start x" arbitrary: x rule: less_induct)
    case less
    then have ih: "\<forall>c. b_start c < b_start x \<longrightarrow> (c \<in> set xs \<longleftrightarrow> c \<in> set ys)"
      by blast
    then have ih': "\<forall>c. b_start c < b_start x \<longrightarrow> (c \<in> set ys \<longleftrightarrow> c \<in> set xs)"
      by blast
    show ?case
      using extraction_member [OF wx sx wy cy ih] extraction_member [OF wy sy wx cx ih']
      by blast
  qed
  then have sets: "set xs = set ys" by blast
  have strict: "sorted_wrt (<) (map b_start zs)"
    if "\<forall>b\<in>set zs. well_formed_block cfg lines b"
      and "sorted_wrt (\<lambda>a b. b_end a < b_start b) zs" for zs
  proof (rule sorted_wrt_map_mono [OF that(2)])
    fix a b assume "a \<in> set zs" "b \<in> set zs" "b_end a < b_start b"
    then show "b_start a < b_start b"
      using that(1) by (fastforce simp: well_formed_block_def)
  qed
  have "map b_start xs = map b_start ys"
    using strict [OF wx sx] strict [OF wy sy] sets
    by (metis strict_sorted_equal list.set_map)
  moreover have "inj_on b_start (set xs \<union> set ys)"
  proof (rule inj_onI)
    fix a b assume ab: "a \<in> set xs \<union> set ys" "b \<in> set xs \<union> set ys" "b_start a = b_start b"
    then have "well_formed_block cfg lines a" "well_formed_block cfg lines b"
      using wx wy by blast+
    then show "a = b" using ab(3) by (metis well_formed_block_unique)
  qed
  ultimately show ?thesis by (simp add: inj_on_map_eq_map)
qed


text \<open>
  Every block that \<open>extractProtectedBlocks\<close> returns is well formed and holds the lines
  of the document from its start to its end, as they are; no block begins inside
  another one; and no block ends after the last line with an end marker.
\<close>

lemma extracted_blocks_sound:
  "(\<forall>b\<in>set (extractProtectedBlocks cfg content).
      well_formed_block cfg (split_lines content) b
      \<and> split_lines (b_content b)
          = take (b_end b - b_start b + 1) (drop (b_start b) (split_lines content))
      \<and> (\<forall>b'\<in>set (extractProtectedBlocks cfg content).
            \<not> (b_start b < b_start b' \<and> b_start b' \<le> b_end b))
      \<and> ((\<forall>j. i < j \<and> j < length (split_lines content)
                \<longrightarrow> \<not> some_includes (end_markers cfg) (split_lines content ! j))
           \<longrightarrow> b_end b \<le> i))"
proof (intro ballI conjI impI)
  fix b
  assume b: "b \<in> set (extractProtectedBlocks cfg content)"
  show wf: "well_formed_block cfg (split_lines content) b"
    using b extract_well_formed by blast
  show "split_lines (b_content b)
          = take (b_end b - b_start b + 1) (drop (b_start b) (split_lines content))"
    using wf by (rule well_formed_block_lines)
  show "\<not> (b_start b < b_start b' \<and> b_start b' \<le> b_end b)"
    if b': "b' \<in> set (extractProtectedBlocks cfg content)" for b'
  proof -
    have "well_formed_block cfg (split_lines content) b'"
      using b' extract_well_formed by blast
    then have "b_start b' < b_end b'" by (simp add: well_formed_block_def)
    moreover have "b = b' \<or> b_end b < b_start b' \<or> b_end b' < b_start b"
      using sorted_wrt_cases [of "\<lambda>a b. b_end a < b_start b"] extract_well_formed b b'
      by blast
    ultimately show ?thesis by auto
  qed
  show "b_end b \<le> i"
    if "\<forall>j. i < j \<and> j < length (split_lines content)
              \<longrightarrow> \<not> some_includes (end_markers cfg) (split_lines content ! j)"
    using that wf by (auto simp: well_formed_block_def not_le [symmetric])
qed


text \<open>
  Claim C7. Every block that \<open>extractProtectedBlocks\<close> returns is well formed: it
  begins at a line with a start marker and ends at the first later line with an end
  marker, and its lines are the lines of the document from its start to its end, as
  they are. The blocks come in the order of the document and do not overlap, so no
  block begins inside another one, whatever start markers the other one contains.
  Every line with a start marker lies in a returned block, as its first line or
  absorbed into its content, unless no line with an end marker follows it: that is
  the block still open at the end of the document, which is not returned. No other
  list of blocks has these properties.
\<close>

theorem extractor_well_formed:
  "(\<forall>b\<in>set (extractProtectedBlocks cfg content).
      well_formed_block cfg (split_lines content) b
      \<and> split_lines (b_content b)
          = take (b_end b - b_start b + 1) (drop (b_start b) (split_lines content))
      \<and> (\<forall>b'\<in>set (extractProtectedBlocks cfg content).
            \<not> (b_start b < b_start b' \<and> b_start b' \<le> b_end b))
      \<and> ((\<forall>j. i < j \<and> j < length (split_lines content)
                \<longrightarrow> \<not> some_includes (end_markers cfg) (split_lines content ! j))
           \<longrightarrow> b_end b \<le> i))
   \<and> sorted_wrt (\<lambda>a b. b_end a < b_start b) (extractProtectedBlocks cfg content)
   \<and> (\<forall>j<length (split_lines content).
        some_includes (start_markers cfg) (split_lines content ! j) \<longrightarrow>
          (\<exists>b\<in>set (extractProtectedBlocks cfg content). b_start b \<le> j \<and> j \<le> b_end b)
          \<or> (\<forall>k. j < k \<and> k < length (split_lines content)
                 \<longrightarrow> \<not> some_includes (end_markers cfg) (split_lines content ! k)))
   \<and> (\<forall>bs. (\<forall>b\<in>set bs. well_formed_block cfg (split_lines content) b)
          \<and> sorted_wrt (\<lambda>a b. b_end a < b_start b) bs
          \<and> (\<forall>j<length (split_lines content).
                some_includes (start_markers cfg) (split_lines content ! j) \<longrightarrow>
                  (\<exists>b\<in>set bs. b_start b \<le> j \<and> j \<le> b_end b)
                  \<or> (\<forall>k. j < k \<and> k < length (split_lines content)
                         \<longrightarrow> \<not> some_includes (end_markers cfg) (split_lines content ! k)))
          \<longrightarrow> bs = extractProtectedBlocks cfg content)"
proof -
  let ?E = "extractProtectedBlocks cfg content"
  let ?L = "split_lines content"
  have wf: "\<forall>b\<in>set ?E. well_formed_block cfg ?L b"
    and so: "sorted_wrt (\<lambda>a b. b_end a < b_start b) ?E"
    using extract_well_formed [of cfg content] by simp_all
  have co: "\<forall>j<length ?L. some_includes (start_markers cfg) (?L ! j) \<longrightarrow>
          (\<exists>b\<in>set ?E. b_start b \<le> j \<and> j \<le> b_end b)
          \<or> (\<forall>k. j < k \<and> k < length ?L \<longrightarrow> \<not> some_includes (end_markers cfg) (?L ! k))"
    using extract_covers [of _ content cfg] by blast
  have un: "\<forall>bs. (\<forall>b\<in>set bs. well_formed_block cfg ?L b)
          \<and> sorted_wrt (\<lambda>a b. b_end a < b_start b) bs
          \<and> (\<forall>j<length ?L. some_includes (start_markers cfg) (?L ! j) \<longrightarrow>
                  (\<exists>b\<in>set bs. b_start b \<le> j \<and> j \<le> b_end b)
                  \<or> (\<forall>k. j < k \<and> k < length ?L
                         \<longrightarrow> \<not> some_includes (end_markers cfg) (?L ! k)))
          \<longrightarrow> bs = ?E"
  proof (intro allI impI, elim conjE)
    fix bs
    assume a: "\<forall>b\<in>set bs. well_formed_block cfg ?L b"
      and b: "sorted_wrt (\<lambda>a b. b_end a < b_start b) bs"
      and c: "\<forall>j<length ?L. some_includes (start_markers cfg) (?L ! j) \<longrightarrow>
                  (\<exists>b\<in>set bs. b_start b \<le> j \<and> j \<le> b_end b)
                  \<or> (\<forall>k. j < k \<and> k < length ?L
                         \<longrightarrow> \<not> some_includes (end_markers cfg) (?L ! k))"
    show "bs = ?E"
      by (rule extraction_unique [OF a b c wf so co])
  qed
  have sound: "\<forall>b\<in>set ?E.
      well_formed_block cfg ?L b
      \<and> split_lines (b_content b) = take (b_end b - b_start b + 1) (drop (b_start b) ?L)
      \<and> (\<forall>b'\<in>set ?E. \<not> (b_start b < b_start b' \<and> b_start b' \<le> b_end b))
      \<and> ((\<forall>j. i < j \<and> j < length ?L \<longrightarrow> \<not> some_includes (end_markers cfg) (?L ! j))
           \<longrightarrow> b_end b \<le> i)"
    by (rule extracted_blocks_sound)
  show ?thesis
    by (intro conjI) (fact sound so co un)+
qed

theorem extractor_well_formed_witness:
  "extractProtectedBlocks getDefaultConfig (join_lines demo_nested)
     = [\<lparr>b_start = 1, b_end = 5, b_content = join_lines (take 5 (drop 1 demo_nested))\<rparr>]
   \<and> well_formed_block getDefaultConfig demo_nested
        \<lparr>b_start = 1, b_end = 5, b_content = join_lines (take 5 (drop 1 demo_nested))\<rparr>
   \<and> split_lines (join_lines (take 5 (drop 1 demo_nested)))
       = map js [''{/* DEMO-INTENTIONAL-START */}'', ''<A />'', ''{/* DEMO-INTENTIONAL-START */}'',
                 ''<B />'', ''{/* DEMO-INTENTIONAL-END */}'']
   \<and> some_includes (start_markers getDefaultConfig) (demo_nested ! 3)
   \<and> some_includes (start_markers getDefaultConfig) (demo_nested ! 7)
   \<and> \<not> some_includes (end_markers getDefaultConfig) (demo_nested ! 6)
   \<and> \<not> some_includes (end_markers getDefaultConfig) (demo_nested ! 7)
   \<and> \<not> some_includes (end_markers getDefaultConfig) (demo_nested ! 8)
   \<and> b_end \<lparr>b_start = 1, b_end = 5,
              b_content = join_lines (take 5 (drop 1 demo_nested))\<rparr> \<le> 5"
proof -
  let ?B = "\<lparr>b_start = 1, b_end = 5, b_content = join_lines (take 5 (drop 1 demo_nested))\<rparr>"
  let ?D = "join_lines demo_nested"
  let ?S = "\<lambda>j. some_includes (start_markers getDefaultConfig) (demo_nested ! j)"
  let ?N = "\<lambda>j. some_includes (end_markers getDefaultConfig) (demo_nested ! j)"
  have sl: "split_lines ?D = demo_nested"
    by (simp add: demo_nested_def js_def)
  have len: "length demo_nested = 9"
    by (simp add: demo_nested_def)
  have s0: "\<not> ?S 0" and s1: "?S 1" and s2: "\<not> ?S 2" and s3: "?S 3" and s4: "\<not> ?S 4"
    and s5: "\<not> ?S 5" and s6: "\<not> ?S 6" and s7: "?S 7" and s8: "\<not> ?S 8"
    by (simp_all add: demo_nested_def eval_defs)
  have e2: "\<not> ?N 2" and e3: "\<not> ?N 3" and e4: "\<not> ?N 4" and e5: "?N 5"
    and e6: "\<not> ?N 6" and e7: "\<not> ?N 7" and e8: "\<not> ?N 8"
    by (simp_all add: demo_nested_def eval_defs)
  have noend: "\<forall>j. 5 < j \<and> j < length (split_lines ?D)
                 \<longrightarrow> \<not> some_includes (end_markers getDefaultConfig) (split_lines ?D ! j)"
  proof (intro allI impI)
    fix j assume "5 < j \<and> j < length (split_lines ?D)"
    then have "j = 6 \<or> j = 7 \<or> j = 8"
      unfolding sl len by auto
    then show "\<not> some_includes (end_markers getDefaultConfig) (split_lines ?D ! j)"
      unfolding sl using e6 e7 e8 by blast
  qed
  have wfB: "\<forall>b\<in>set [?B]. well_formed_block getDefaultConfig (split_lines ?D) b"
  proof -
    have "\<not> ?N j" if "j \<in> {1 <..< 5}" for j
    proof -
      have "j = 2 \<or> j = 3 \<or> j = 4" using that by auto
      then show ?thesis using e2 e3 e4 by blast
    qed
    then show ?thesis
      unfolding sl using s1 e5 len by (simp add: well_formed_block_def)
  qed
  have soB: "sorted_wrt (\<lambda>a b. b_end a < b_start b) [?B]"
    by simp
  have coB: "\<forall>j<length (split_lines ?D).
        some_includes (start_markers getDefaultConfig) (split_lines ?D ! j) \<longrightarrow>
          (\<exists>b\<in>set [?B]. b_start b \<le> j \<and> j \<le> b_end b)
          \<or> (\<forall>k. j < k \<and> k < length (split_lines ?D)
                 \<longrightarrow> \<not> some_includes (end_markers getDefaultConfig) (split_lines ?D ! k))"
  proof (intro allI impI)
    fix j
    assume j: "j < length (split_lines ?D)"
      and sj: "some_includes (start_markers getDefaultConfig) (split_lines ?D ! j)"
    have "j = 0 \<or> j = 1 \<or> j = 2 \<or> j = 3 \<or> j = 4 \<or> j = 5 \<or> j = 6 \<or> j = 7 \<or> j = 8"
      using j unfolding sl len by auto
    then have "j = 1 \<or> j = 3 \<or> j = 7"
      using sj s0 s2 s4 s5 s6 s8 unfolding sl by blast
    then show "(\<exists>b\<in>set [?B]. b_start b \<le> j \<and> j \<le> b_end b)
          \<or> (\<forall>k. j < k \<and> k < length (split_lines ?D)
                 \<longrightarrow> \<not> some_includes (end_markers getDefaultConfig) (split_lines ?D ! k))"
    proof (elim disjE)
      assume "j = 7"
      then have "\<forall>k. j < k \<and> k < length (split_lines ?D)
                 \<longrightarrow> \<not> some_includes (end_markers getDefaultConfig) (split_lines ?D ! k)"
        using noend by simp
      then show ?thesis by blast
    qed simp_all
  qed
  note t = extractor_well_formed [of getDefaultConfig ?D 5]
  note u = t [THEN conjunct2, THEN conjunct2, THEN conjunct2, rule_format, of "[?B]"]
  have "[?B] = extractProtectedBlocks getDefaultConfig ?D"
    by (rule u) (intro conjI wfB soB coB)
  then have ex: "extractProtectedBlocks getDefaultConfig ?D = [?B]"
    by simp
  have mem: "?B \<in> set (extractProtectedBlocks getDefaultConfig ?D)"
    unfolding ex by simp
  have wf: "well_formed_block getDefaultConfig demo_nested ?B"
    using wfB sl by simp
  note v = t [THEN conjunct1, rule_format, OF mem]
  have ls: "split_lines (b_content ?B) = take (b_end ?B - b_start ?B + 1)
              (drop (b_start ?B) (split_lines ?D))"
    using v by (elim conjE)
  have ls': "split_lines (join_lines (take 5 (drop 1 demo_nested)))
       = map js [''{/* DEMO-INTENTIONAL-START */}'', ''<A />'', ''{/* DEMO-INTENTIONAL-START */}'',
                 ''<B />'', ''{/* DEMO-INTENTIONAL-END */}'']"
    using ls unfolding sl by (simp add: demo_nested_def)
  have "b_end ?B \<le> 5"
    using v noend by (elim conjE) blast
  with ex wf ls' s3 s7 e6 e7 e8 show ?thesis by blast
qed


section \<open>The merge raises no error\<close>

text \<open>
  The blocks that \<open>smartMergeFile\<close> passes to \<open>intelligentMerge\<close> are extracted from
  the demo file, so their start lines are lines of that file, \<open>getContextBefore\<close> reads
  inside the array, and the merge returns a result for every pair of files.
\<close>

lemma getContextBefore_defined:
  "position \<le> length lines \<Longrightarrow> \<exists>w. getContextBefore cfg lines position count = Some w"
  by (simp add: getContextBefore_filter)

lemma merge_block_defined:
  assumes "b_start b \<le> length demoLines"
  shows "\<exists>st'. merge_block cfg demoLines st b = Some st'"
proof -
  obtain result warnings where st: "st = (result, warnings)"
    by (cases st)
  obtain cb where "getContextBefore cfg demoLines (b_start b) 3 = Some cb"
    using assms getContextBefore_defined by blast
  then show ?thesis
    unfolding st by (simp add: Let_def split: option.splits)
qed

lemma merge_blocks_defined:
  "\<forall>b\<in>set bs. b_start b \<le> length demoLines
     \<Longrightarrow> \<exists>st'. merge_blocks cfg demoLines st bs = Some st'"
proof (induction bs arbitrary: st)
  case Nil
  then show ?case by simp
next
  case (Cons b bs)
  then obtain st1 where "merge_block cfg demoLines st b = Some st1"
    using merge_block_defined [of b demoLines cfg st] by auto
  then show ?case
    using Cons by (simp del: merge_block.simps)
qed

lemma extracted_block_in_range:
  "b \<in> set (extractProtectedBlocks cfg content) \<Longrightarrow> b_start b \<le> length (split_lines content)"
  using extract_well_formed [of cfg content] by (auto simp: well_formed_block_def)

lemma smartMergeFile_defined: "\<exists>r. smartMergeFile cfg mainContent demoFile = Some r"
proof -
  let ?demo = "case demoFile of Some d \<Rightarrow> d | None \<Rightarrow> mainContent"
  obtain st where "merge_blocks cfg (split_lines ?demo) (split_lines mainContent, [])
                     (extractProtectedBlocks cfg ?demo) = Some st"
    using merge_blocks_defined [of "extractProtectedBlocks cfg ?demo" "split_lines ?demo"]
      extracted_block_in_range by blast
  then show ?thesis
    by (cases st) (simp add: smartMergeFile_def intelligentMerge_def Let_def)
qed


section \<open>The validators\<close>

lemma count_start_Cons:
  "count_start cfg (x # xs)
     = (if some_includes (start_markers cfg) x then 1 else 0) + count_start cfg xs"
  by (simp add: count_start_def)

lemma count_end_Cons:
  "count_end cfg (x # xs)
     = (if some_includes (end_markers cfg) x then 1 else 0) + count_end cfg xs"
  by (simp add: count_end_def)

lemma count_Nil: "count_start cfg [] = 0" "count_end cfg [] = 0"
  by (simp_all add: count_start_def count_end_def)

lemma openBlocks_loop_count:
  "openBlocks_loop cfg lines openBlocks
     = openBlocks + int (count_start cfg lines) - int (count_end cfg lines)"
  by (induction lines arbitrary: openBlocks)
     (simp_all add: count_start_Cons count_end_Cons count_Nil Let_def)

lemma valid_iff_counts:
  "valid (validateProtectedBlocks cfg content)
     \<longleftrightarrow> count_start cfg (split_lines content) = count_end cfg (split_lines content)"
  by (auto simp: validateProtectedBlocks_def openBlocks_loop_count Let_def)

text \<open>
  The stand-alone validator does not compare the totals. Its counter of open blocks
  goes up at a start marker and down at an end marker, is reset when it would fall
  below zero, and must be zero at the end: it adds an error exactly when, up to some
  line, the end markers outnumber the start markers, or, from some line on, the start
  markers outnumber the end markers.
\<close>

lemma all_le_Suc: "(\<forall>n\<le>Suc k. P n) \<longleftrightarrow> P 0 \<and> (\<forall>m\<le>k. P (Suc m))"
  by (metis Suc_le_mono le0 not0_implies_Suc)

lemma ex_le_Suc: "(\<exists>n\<le>Suc k. P n) \<longleftrightarrow> P 0 \<or> (\<exists>m\<le>k. P (Suc m))"
  by (metis Suc_le_mono le0 not0_implies_Suc)

lemma sv_loop_errors_append:
  "\<exists>new. snd (snd (sv_loop cfg f xs i openBlocks blockStarts errors)) = errors @ new"
proof (induction xs arbitrary: i openBlocks blockStarts errors)
  case Nil
  then show ?case by simp
next
  case (Cons x xs)
  let ?s = "some_includes (start_markers cfg) x"
  let ?e = "some_includes (end_markers cfg) x"
  let ?o1 = "if ?s then openBlocks + 1 else openBlocks"
  let ?bs1 = "if ?s then blockStarts @ [i + 1] else blockStarts"
  show ?case
  proof (cases "?e \<and> ?o1 - 1 < 0")
    case True
    let ?err = "\<lparr>e_file = f, e_type = js ''protected_block'', e_line = Some (i + 1),
                 e_message = js ''INTENTIONAL-END without matching INTENTIONAL-START''\<rparr>"
    have eq: "sv_loop cfg f (x # xs) i openBlocks blockStarts errors
                = sv_loop cfg f xs (i + 1) 0 ?bs1 (errors @ [?err])"
      using True by (simp add: Let_def)
    obtain new where "snd (snd (sv_loop cfg f xs (i + 1) 0 ?bs1 (errors @ [?err])))
                        = (errors @ [?err]) @ new"
      using Cons by blast
    then have "snd (snd (sv_loop cfg f (x # xs) i openBlocks blockStarts errors))
                 = errors @ (?err # new)"
      unfolding eq by simp
    then show ?thesis by blast
  next
    case False
    let ?o2 = "if ?e then ?o1 - 1 else ?o1"
    have eq: "sv_loop cfg f (x # xs) i openBlocks blockStarts errors
                = sv_loop cfg f xs (i + 1) ?o2 ?bs1 errors"
      using False by (simp add: Let_def)
    show ?thesis
      unfolding eq by (rule Cons)
  qed
qed

lemma sv_loop_no_error_iff:
  assumes "0 \<le> openBlocks"
  shows "snd (snd (sv_loop cfg f xs i openBlocks blockStarts errors)) = errors
     \<longleftrightarrow> (\<forall>n\<le>length xs. int (count_end cfg (take n xs))
                            \<le> openBlocks + int (count_start cfg (take n xs)))"
  using assms
proof (induction xs arbitrary: i openBlocks blockStarts errors)
  case Nil
  then show ?case by (simp add: count_Nil)
next
  case (Cons x xs)
  let ?s = "some_includes (start_markers cfg) x"
  let ?e = "some_includes (end_markers cfg) x"
  let ?o1 = "if ?s then openBlocks + 1 else openBlocks"
  let ?bs1 = "if ?s then blockStarts @ [i + 1] else blockStarts"
  show ?case
  proof (cases "?e \<and> ?o1 - 1 < 0")
    case True
    let ?err = "\<lparr>e_file = f, e_type = js ''protected_block'', e_line = Some (i + 1),
                 e_message = js ''INTENTIONAL-END without matching INTENTIONAL-START''\<rparr>"
    have eq: "sv_loop cfg f (x # xs) i openBlocks blockStarts errors
                = sv_loop cfg f xs (i + 1) 0 ?bs1 (errors @ [?err])"
      using True by (simp add: Let_def)
    obtain new where "snd (snd (sv_loop cfg f xs (i + 1) 0 ?bs1 (errors @ [?err])))
                        = (errors @ [?err]) @ new"
      using sv_loop_errors_append by blast
    then have l: "snd (snd (sv_loop cfg f (x # xs) i openBlocks blockStarts errors)) \<noteq> errors"
      unfolding eq by simp
    have "\<not> ?s" "openBlocks = 0" using True Cons.prems by (auto split: if_splits)
    then have "\<not> int (count_end cfg (take 1 (x # xs)))
                  \<le> openBlocks + int (count_start cfg (take 1 (x # xs)))"
      using True by (simp add: count_start_Cons count_end_Cons count_Nil)
    then have "\<not> (\<forall>n\<le>length (x # xs). int (count_end cfg (take n (x # xs)))
                            \<le> openBlocks + int (count_start cfg (take n (x # xs))))"
      by (metis One_nat_def Suc_le_mono le0 length_Cons)
    with l show ?thesis by blast
  next
    case False
    let ?o2 = "if ?e then ?o1 - 1 else ?o1"
    have eq: "sv_loop cfg f (x # xs) i openBlocks blockStarts errors
                = sv_loop cfg f xs (i + 1) ?o2 ?bs1 errors"
      using False by (simp add: Let_def)
    have nonneg: "0 \<le> ?o2" using False Cons.prems by auto
    have ih: "snd (snd (sv_loop cfg f xs (i + 1) ?o2 ?bs1 errors)) = errors
        \<longleftrightarrow> (\<forall>n\<le>length xs. int (count_end cfg (take n xs))
                            \<le> ?o2 + int (count_start cfg (take n xs)))"
      by (rule Cons.IH [OF nonneg])
    have pt: "int (count_end cfg (take (Suc m) (x # xs)))
                 \<le> openBlocks + int (count_start cfg (take (Suc m) (x # xs)))
              \<longleftrightarrow> int (count_end cfg (take m xs)) \<le> ?o2 + int (count_start cfg (take m xs))"
      for m
      by (auto simp: count_start_Cons count_end_Cons)
    have "(\<forall>n\<le>length (x # xs). int (count_end cfg (take n (x # xs)))
                            \<le> openBlocks + int (count_start cfg (take n (x # xs))))
       \<longleftrightarrow> (\<forall>n\<le>length xs. int (count_end cfg (take n xs))
                            \<le> ?o2 + int (count_start cfg (take n xs)))"
      unfolding length_Cons all_le_Suc pt using Cons.prems by (simp add: count_Nil)
    with ih eq show ?thesis by simp
  qed
qed

lemma sv_loop_open_iff:
  assumes "0 \<le> openBlocks"
  shows "0 < fst (sv_loop cfg f xs i openBlocks blockStarts errors)
     \<longleftrightarrow> (0 < openBlocks + int (count_start cfg xs) - int (count_end cfg xs)
          \<or> (\<exists>n\<le>length xs. count_end cfg (drop n xs) < count_start cfg (drop n xs)))"
  using assms
proof (induction xs arbitrary: i openBlocks blockStarts errors)
  case Nil
  then show ?case by (simp add: count_Nil)
next
  case (Cons x xs)
  let ?s = "some_includes (start_markers cfg) x"
  let ?e = "some_includes (end_markers cfg) x"
  let ?o1 = "if ?s then openBlocks + 1 else openBlocks"
  let ?bs1 = "if ?s then blockStarts @ [i + 1] else blockStarts"
  define T where "T = int (count_start cfg xs) - int (count_end cfg xs)"
  define A where
    "A \<longleftrightarrow> (\<exists>n\<le>length xs. count_end cfg (drop n xs) < count_start cfg (drop n xs))"
  define sx :: int where "sx = (if ?s then 1 else 0)"
  define ex :: int where "ex = (if ?e then 1 else 0)"
  have A0: "0 < T \<Longrightarrow> A"
    unfolding A_def T_def by (intro exI[of _ 0]) simp
  have whole: "count_end cfg (x # xs) < count_start cfg (x # xs) \<longleftrightarrow> 0 < sx - ex + T"
    unfolding T_def sx_def ex_def by (auto simp: count_start_Cons count_end_Cons)
  have tot: "openBlocks + int (count_start cfg (x # xs)) - int (count_end cfg (x # xs))
               = openBlocks + sx - ex + T"
    unfolding T_def sx_def ex_def by (simp add: count_start_Cons count_end_Cons)
  have rhs: "(\<exists>n\<le>length (x # xs). count_end cfg (drop n (x # xs))
                                    < count_start cfg (drop n (x # xs)))
      \<longleftrightarrow> (0 < sx - ex + T \<or> A)"
    unfolding length_Cons ex_le_Suc A_def whole [symmetric] by simp
  have ih: "0 < fst (sv_loop cfg f xs i' ob' bs' errs') \<longleftrightarrow> (0 < ob' + T \<or> A)"
    if "0 \<le> ob'" for i' ob' bs' errs'
    using Cons.IH [OF that, of i' bs' errs'] unfolding T_def A_def by (simp add: algebra_simps)
  show ?case
  proof (cases "?e \<and> ?o1 - 1 < 0")
    case True
    let ?err = "\<lparr>e_file = f, e_type = js ''protected_block'', e_line = Some (i + 1),
                 e_message = js ''INTENTIONAL-END without matching INTENTIONAL-START''\<rparr>"
    have eq: "sv_loop cfg f (x # xs) i openBlocks blockStarts errors
                = sv_loop cfg f xs (i + 1) 0 ?bs1 (errors @ [?err])"
      using True by (simp add: Let_def)
    have f: "sx = 0" "openBlocks = 0" "ex = 1"
      using True Cons.prems unfolding sx_def ex_def by (auto split: if_splits)
    have "0 < fst (sv_loop cfg f (x # xs) i openBlocks blockStarts errors) \<longleftrightarrow> (0 < T \<or> A)"
      unfolding eq using ih [of 0] by simp
    also have "\<dots> \<longleftrightarrow> (0 < openBlocks + sx - ex + T \<or> 0 < sx - ex + T \<or> A)"
      using f A0 by auto
    finally show ?thesis unfolding tot rhs .
  next
    case False
    let ?o2 = "if ?e then ?o1 - 1 else ?o1"
    have eq: "sv_loop cfg f (x # xs) i openBlocks blockStarts errors
                = sv_loop cfg f xs (i + 1) ?o2 ?bs1 errors"
      using False by (simp add: Let_def)
    have o2: "?o2 = openBlocks + sx - ex"
      unfolding sx_def ex_def by simp
    have nonneg: "0 \<le> openBlocks + sx - ex"
      using False Cons.prems unfolding sx_def ex_def by (auto split: if_splits)
    have "0 < fst (sv_loop cfg f (x # xs) i openBlocks blockStarts errors)
            \<longleftrightarrow> (0 < openBlocks + sx - ex + T \<or> A)"
      unfolding eq o2 using ih [OF nonneg] by simp
    also have "\<dots> \<longleftrightarrow> (0 < openBlocks + sx - ex + T \<or> 0 < sx - ex + T \<or> A)"
      using Cons.prems by auto
    finally show ?thesis unfolding tot rhs .
  qed
qed

lemma SyncValidator_flags_iff:
  "SyncValidator_validateProtectedBlocks cfg f content errors \<noteq> errors
     \<longleftrightarrow> (\<exists>n\<le>length (split_lines content).
            count_start cfg (take n (split_lines content))
              < count_end cfg (take n (split_lines content)))
         \<or> (\<exists>n\<le>length (split_lines content).
              count_end cfg (drop n (split_lines content))
                < count_start cfg (drop n (split_lines content)))"
proof -
  let ?xs = "split_lines content"
  obtain ob bs errs where r: "sv_loop cfg f ?xs 0 0 [] errors = (ob, bs, errs)"
    by (metis prod_cases3)
  obtain new where new: "errs = errors @ new"
    using sv_loop_errors_append [of cfg f ?xs 0 0 "[]" errors] r by auto
  have e: "errs = errors
      \<longleftrightarrow> \<not> (\<exists>n\<le>length ?xs. count_start cfg (take n ?xs) < count_end cfg (take n ?xs))"
    using sv_loop_no_error_iff [of 0 cfg f ?xs 0 "[]" errors] r
    by (auto simp: not_less)
  have o: "0 < ob
      \<longleftrightarrow> (\<exists>n\<le>length ?xs. count_end cfg (drop n ?xs) < count_start cfg (drop n ?xs))"
  proof -
    have "0 < ob \<longleftrightarrow> (0 < 0 + int (count_start cfg ?xs) - int (count_end cfg ?xs)
          \<or> (\<exists>n\<le>length ?xs. count_end cfg (drop n ?xs) < count_start cfg (drop n ?xs)))"
      using sv_loop_open_iff [of 0 cfg f ?xs 0 "[]" errors] r by simp
    also have "\<dots> \<longleftrightarrow> (\<exists>n\<le>length ?xs. count_end cfg (drop n ?xs) < count_start cfg (drop n ?xs))"
    proof -
      have "\<exists>n\<le>length ?xs. count_end cfg (drop n ?xs) < count_start cfg (drop n ?xs)"
        if "0 < 0 + int (count_start cfg ?xs) - int (count_end cfg ?xs)"
        using that by (intro exI[of _ 0]) simp
      then show ?thesis by blast
    qed
    finally show ?thesis .
  qed
  have "SyncValidator_validateProtectedBlocks cfg f content errors \<noteq> errors
          \<longleftrightarrow> 0 < ob \<or> errs \<noteq> errors"
    using r new by (auto simp: SyncValidator_validateProtectedBlocks_def)
  with e o show ?thesis by blast
qed

lemma SyncValidator_appends:
  "\<exists>new. SyncValidator_validateProtectedBlocks cfg f content errors = errors @ new"
proof -
  obtain ob bs errs where r: "sv_loop cfg f (split_lines content) 0 0 [] errors = (ob, bs, errs)"
    by (metis prod_cases3)
  obtain new where new: "errs = errors @ new"
    using sv_loop_errors_append [of cfg f "split_lines content" 0 0 "[]" errors] r by auto
  show ?thesis
    using r new by (auto simp: SyncValidator_validateProtectedBlocks_def)
qed


lemma validateProtectedBlocks_eq:
  "validateProtectedBlocks cfg content
     = (if count_start cfg (split_lines content) = count_end cfg (split_lines content)
        then \<lparr>valid = True, error = None\<rparr>
        else \<lparr>valid = False,
              error = Some (js ''Unclosed protected blocks: ''
                @ (if count_end cfg (split_lines content) < count_start cfg (split_lines content)
                   then js ''missing END'' else js ''missing START''))\<rparr>)"
  by (auto simp: validateProtectedBlocks_def openBlocks_loop_count Let_def)

lemma malformed_scan_open:
  "count_end cfg ls = 0 \<Longrightarrow> malformed_scan cfg ls True"
  by (induction ls) (auto simp: count_end_Cons count_Nil split: if_splits)

lemma malformed_no_end:
  "count_end cfg ls = 0 \<Longrightarrow> 0 < count_start cfg ls \<Longrightarrow> malformed_scan cfg ls False"
  by (induction ls)
     (auto simp: count_end_Cons count_start_Cons count_Nil malformed_scan_open split: if_splits)

lemma malformed_no_start:
  "count_start cfg ls = 0 \<Longrightarrow> 0 < count_end cfg ls \<Longrightarrow> malformed_scan cfg ls False"
  by (induction ls) (auto simp: count_end_Cons count_start_Cons count_Nil split: if_splits)

lemma count_end_pos: "k < length ls \<Longrightarrow> some_includes (end_markers cfg) (ls ! k) \<Longrightarrow> 0 < count_end cfg ls"
  unfolding count_end_def by (metis filter_empty_conv length_greater_0_conv nth_mem)

lemma count_start_pos:
  "k < length ls \<Longrightarrow> some_includes (start_markers cfg) (ls ! k) \<Longrightarrow> 0 < count_start cfg ls"
  unfolding count_start_def by (metis filter_empty_conv length_greater_0_conv nth_mem)

lemma extract_none_without_end:
  assumes "count_end cfg (split_lines content) = 0"
  shows "extractProtectedBlocks cfg content = []"
proof (rule ccontr)
  assume "extractProtectedBlocks cfg content \<noteq> []"
  then obtain b where "b \<in> set (extractProtectedBlocks cfg content)"
    by (meson last_in_set)
  then have "well_formed_block cfg (split_lines content) b"
    using extract_well_formed by blast
  then have "0 < count_end cfg (split_lines content)"
    using count_end_pos [of "b_end b" "split_lines content" cfg]
    by (simp add: well_formed_block_def)
  with assms show False by simp
qed

lemma extract_none_without_start:
  assumes "count_start cfg (split_lines content) = 0"
  shows "extractProtectedBlocks cfg content = []"
proof (rule ccontr)
  assume "extractProtectedBlocks cfg content \<noteq> []"
  then obtain b where "b \<in> set (extractProtectedBlocks cfg content)"
    by (meson last_in_set)
  then have "well_formed_block cfg (split_lines content) b"
    using extract_well_formed by blast
  then have "0 < count_start cfg (split_lines content)"
    using count_start_pos [of "b_start b" "split_lines content" cfg]
    by (simp add: well_formed_block_def)
  with assms show False by simp
qed

text \<open>
  Claim C8, as amended. The orchestrator's \<open>validateProtectedBlocks\<close> compares the
  number of lines with a start marker with the number of lines with an end marker: the
  document is valid exactly when the two are equal, and the error says which kind is
  missing. A document with start markers and no end marker, and one with end markers
  and no start marker, are malformed and are reported so. In both the extractor
  returns no block and nothing else: the defect shows in the result of the validator
  only.
\<close>

theorem validator_compares_marker_counts:
  "validateProtectedBlocks cfg content
     = (if count_start cfg (split_lines content) = count_end cfg (split_lines content)
        then \<lparr>valid = True, error = None\<rparr>
        else \<lparr>valid = False,
              error = Some (js ''Unclosed protected blocks: ''
                @ (if count_end cfg (split_lines content) < count_start cfg (split_lines content)
                   then js ''missing END'' else js ''missing START''))\<rparr>)
   \<and> (0 < count_start cfg (split_lines content) \<and> count_end cfg (split_lines content) = 0
        \<longrightarrow> malformed_spec cfg (split_lines content)
            \<and> validateProtectedBlocks cfg content
                = \<lparr>valid = False,
                   error = Some (js ''Unclosed protected blocks: missing END'')\<rparr>
            \<and> extractProtectedBlocks cfg content = [])
   \<and> (count_start cfg (split_lines content) = 0 \<and> 0 < count_end cfg (split_lines content)
        \<longrightarrow> malformed_spec cfg (split_lines content)
            \<and> validateProtectedBlocks cfg content
                = \<lparr>valid = False,
                   error = Some (js ''Unclosed protected blocks: missing START'')\<rparr>
            \<and> extractProtectedBlocks cfg content = [])"
proof -
  have a: "malformed_spec cfg (split_lines content)
            \<and> validateProtectedBlocks cfg content
                = \<lparr>valid = False,
                   error = Some (js ''Unclosed protected blocks: missing END'')\<rparr>
            \<and> extractProtectedBlocks cfg content = []"
    if "0 < count_start cfg (split_lines content) \<and> count_end cfg (split_lines content) = 0"
    using that
    by (simp add: malformed_spec_def malformed_no_end extract_none_without_end
        validateProtectedBlocks_eq js_def)
  have b: "malformed_spec cfg (split_lines content)
            \<and> validateProtectedBlocks cfg content
                = \<lparr>valid = False,
                   error = Some (js ''Unclosed protected blocks: missing START'')\<rparr>
            \<and> extractProtectedBlocks cfg content = []"
    if "count_start cfg (split_lines content) = 0 \<and> 0 < count_end cfg (split_lines content)"
    using that
    by (simp add: malformed_spec_def malformed_no_start extract_none_without_start
        validateProtectedBlocks_eq js_def)
  show ?thesis
    using validateProtectedBlocks_eq [of cfg content] a b by blast
qed

theorem validator_compares_marker_counts_witness:
  "count_start getDefaultConfig (split_lines (join_lines doc_unclosed)) = 1
   \<and> count_end getDefaultConfig (split_lines (join_lines doc_unclosed)) = 0
   \<and> malformed_spec getDefaultConfig (split_lines (join_lines doc_unclosed))
   \<and> validateProtectedBlocks getDefaultConfig (join_lines doc_unclosed)
       = \<lparr>valid = False, error = Some (js ''Unclosed protected blocks: missing END'')\<rparr>
   \<and> extractProtectedBlocks getDefaultConfig (join_lines doc_unclosed) = []
   \<and> count_start getDefaultConfig (split_lines (join_lines doc_stray_end)) = 0
   \<and> count_end getDefaultConfig (split_lines (join_lines doc_stray_end)) = 1
   \<and> malformed_spec getDefaultConfig (split_lines (join_lines doc_stray_end))
   \<and> validateProtectedBlocks getDefaultConfig (join_lines doc_stray_end)
       = \<lparr>valid = False, error = Some (js ''Unclosed protected blocks: missing START'')\<rparr>
   \<and> extractProtectedBlocks getDefaultConfig (join_lines doc_stray_end) = []"
proof -
  have su: "split_lines (join_lines doc_unclosed) = doc_unclosed"
    by (simp add: doc_unclosed_def js_def)
  have ss: "split_lines (join_lines doc_stray_end) = doc_stray_end"
    by (simp add: doc_stray_end_def js_def)
  have u1: "count_start getDefaultConfig (split_lines (join_lines doc_unclosed)) = 1"
    unfolding su by (simp add: doc_unclosed_def count_start_def eval_defs)
  have u2: "count_end getDefaultConfig (split_lines (join_lines doc_unclosed)) = 0"
    unfolding su by (simp add: doc_unclosed_def count_end_def eval_defs)
  have s1: "count_start getDefaultConfig (split_lines (join_lines doc_stray_end)) = 0"
    unfolding ss by (simp add: doc_stray_end_def count_start_def eval_defs)
  have s2: "count_end getDefaultConfig (split_lines (join_lines doc_stray_end)) = 1"
    unfolding ss by (simp add: doc_stray_end_def count_end_def eval_defs)
  have hu: "0 < count_start getDefaultConfig (split_lines (join_lines doc_unclosed))
      \<and> count_end getDefaultConfig (split_lines (join_lines doc_unclosed)) = 0"
    using u1 u2 by simp
  have hs: "count_start getDefaultConfig (split_lines (join_lines doc_stray_end)) = 0
      \<and> 0 < count_end getDefaultConfig (split_lines (join_lines doc_stray_end))"
    using s1 s2 by simp
  show ?thesis
    using u1 u2 s1 s2 hu hs
      validator_compares_marker_counts [of getDefaultConfig "join_lines doc_unclosed"]
      validator_compares_marker_counts [of getDefaultConfig "join_lines doc_stray_end"]
    by blast
qed

text \<open>
  Claim C8 as stated fails: a document whose end marker comes before its start marker
  is malformed (the end marker has no matching start, and the block that the start
  marker opens is never closed), yet the validator finds one marker of each kind and
  reports the document as valid.
\<close>

theorem malformed_equal_counts_counterexample:
  "malformed_spec getDefaultConfig (split_lines (join_lines doc_end_first))
   \<and> count_start getDefaultConfig (split_lines (join_lines doc_end_first)) = 1
   \<and> count_end getDefaultConfig (split_lines (join_lines doc_end_first)) = 1
   \<and> validateProtectedBlocks getDefaultConfig (join_lines doc_end_first)
       = \<lparr>valid = True, error = None\<rparr>"
proof -
  have sl: "split_lines (join_lines doc_end_first) = doc_end_first"
    by (simp add: doc_end_first_def js_def)
  have m: "malformed_spec getDefaultConfig doc_end_first"
    by (simp add: malformed_spec_def doc_end_first_def eval_defs)
  have cs: "count_start getDefaultConfig doc_end_first = 1"
    by (simp add: doc_end_first_def count_start_def eval_defs)
  have ce: "count_end getDefaultConfig doc_end_first = 1"
    by (simp add: doc_end_first_def count_end_def eval_defs)
  have v: "validateProtectedBlocks getDefaultConfig (join_lines doc_end_first)
             = \<lparr>valid = True, error = None\<rparr>"
    unfolding validateProtectedBlocks_def sl
    by (simp add: doc_end_first_def eval_defs)
  show ?thesis
    unfolding sl using m cs ce v by simp
qed


section \<open>Line numbers in diagnostics\<close>

text \<open>
  Claim C9 on a failing input. The block of the demo file stands on its third to fifth
  line (indices 2 to 4). The main file has lost the context, and the warning of the
  merge names the block "at lines 2-4": the indices, counted from 0. The stand-alone
  validator, given the first four lines of the same file, reports the unclosed start
  marker at line 3, counted from 1.
\<close>

theorem context_missing_lines_zero_indexed:
  "extractProtectedBlocks getDefaultConfig (join_lines demo_anchor) = [block_anchor]
   \<and> demo_anchor ! 2 = js ''{/* DEMO-INTENTIONAL-START */}''
   \<and> demo_anchor ! 4 = js ''{/* DEMO-INTENTIONAL-END */}''
   \<and> map_option m_warnings
         (smartMergeFile getDefaultConfig (join_lines main_no_before)
            (Some (join_lines demo_anchor)))
       = Some [\<lparr>w_type = js ''protected_block_context_missing'',
                 w_message = js ''Protected block at lines 2-4 has no matching context in main-app. Main may have removed this section.'',
                 w_block = js ''{/* DEMO-INTENTIONAL-START */}'' @ [10] @ js ''  return <Mock />;''
                           @ [10] @ js ''{/* DEMO-INTENTIONAL-END */}...''\<rparr>]
   \<and> SyncValidator_validateProtectedBlocks getDefaultConfig (js ''src/App.jsx'')
         (join_lines (take 4 demo_anchor)) []
       = [\<lparr>e_file = js ''src/App.jsx'', e_type = js ''protected_block'', e_line = Some 3,
           e_message = js ''1 unclosed INTENTIONAL block(s) - missing INTENTIONAL-END''\<rparr>]"
proof -
  have ex: "extractProtectedBlocks getDefaultConfig (join_lines demo_anchor) = [block_anchor]"
    by (simp add: demo_anchor_def block_anchor_def eval_defs)
  have l2: "demo_anchor ! 2 = js ''{/* DEMO-INTENTIONAL-START */}''"
    by (simp add: demo_anchor_def)
  have l4: "demo_anchor ! 4 = js ''{/* DEMO-INTENTIONAL-END */}''"
    by (simp add: demo_anchor_def)
  have sd: "split_lines (join_lines demo_anchor) = demo_anchor"
    by (simp add: demo_anchor_def js_def)
  have sm: "split_lines (join_lines main_no_before) = main_no_before"
    by (simp add: main_no_before_def js_def)
  have mb: "merge_block getDefaultConfig demo_anchor (main_no_before, []) block_anchor
      = Some (main_no_before @ [[], WARNING_COMMENT] @ split_lines (b_content block_anchor),
          [\<lparr>w_type = js ''protected_block_context_missing'',
                 w_message = js ''Protected block at lines 2-4 has no matching context in main-app. Main may have removed this section.'',
                 w_block = js ''{/* DEMO-INTENTIONAL-START */}'' @ [10] @ js ''  return <Mock />;''
                           @ [10] @ js ''{/* DEMO-INTENTIONAL-END */}...''\<rparr>])"
    by (simp add: demo_anchor_def main_no_before_def block_anchor_def eval_defs)
  have w: "map_option m_warnings
         (smartMergeFile getDefaultConfig (join_lines main_no_before)
            (Some (join_lines demo_anchor)))
       = Some [\<lparr>w_type = js ''protected_block_context_missing'',
                 w_message = js ''Protected block at lines 2-4 has no matching context in main-app. Main may have removed this section.'',
                 w_block = js ''{/* DEMO-INTENTIONAL-START */}'' @ [10] @ js ''  return <Mock />;''
                           @ [10] @ js ''{/* DEMO-INTENTIONAL-END */}...''\<rparr>]"
    by (simp add: smartMergeFile_def intelligentMerge_def ex sd sm mb del: merge_block.simps)
  have sv: "SyncValidator_validateProtectedBlocks getDefaultConfig (js ''src/App.jsx'')
         (join_lines (take 4 demo_anchor)) []
       = [\<lparr>e_file = js ''src/App.jsx'', e_type = js ''protected_block'', e_line = Some 3,
           e_message = js ''1 unclosed INTENTIONAL block(s) - missing INTENTIONAL-END''\<rparr>]"
    by (simp add: SyncValidator_validateProtectedBlocks_def demo_anchor_def eval_defs)
  from ex l2 l4 w sv show ?thesis by blast
qed


section \<open>Two blocks next to each other\<close>

text \<open>
  Each merge step leaves the lines of its own block in the working document, as one
  run of lines. What a later step does to them is another matter.
\<close>

lemma merge_block_holds_block:
  assumes "merge_block cfg demoLines (result, warnings) b = Some (result', warnings')"
  shows "\<exists>before after. result' = before @ split_lines (b_content b) @ after"
proof -
  have "\<exists>before after. xs @ [[]] @ [WARNING_COMMENT] @ split_lines (b_content b)
          = before @ split_lines (b_content b) @ after" for xs
    by (intro exI [of _ "xs @ [[], WARNING_COMMENT]"] exI [of _ "[]"]) simp
  then show ?thesis
    using assms
    by (auto simp: Let_def splice_def split: option.splits simp del: append_assoc)
qed


text \<open>
  Claim C1 on a failing input. The demo file has two blocks with no line between them.
  The first block is inserted after its before-context. The before-context of the
  second block is the inner line of the first one, so the second block is anchored at
  the end marker of the first block, and its replacement span removes that end marker.
  The merge reports no warning, and the text of the first block is no longer part of
  the merged text.
\<close>

theorem adjacent_blocks_not_preserved:
  "extractProtectedBlocks getDefaultConfig (join_lines demo_adjacent)
     = [block_adjacent_1, block_adjacent_2]
   \<and> smartMergeFile getDefaultConfig (join_lines main_adjacent) (Some (join_lines demo_adjacent))
       = Some \<lparr>m_content = join_lines (map js
                  [''import React;'', ''{/* DEMO-INTENTIONAL-START */}'', ''<MockA />'',
                   ''{/* DEMO-INTENTIONAL-START */}'', ''<MockB />'',
                   ''{/* DEMO-INTENTIONAL-END */}'', ''export default App;'']),
                m_warnings = []\<rparr>
   \<and> \<not> str_includes (join_lines (map js
                  [''import React;'', ''{/* DEMO-INTENTIONAL-START */}'', ''<MockA />'',
                   ''{/* DEMO-INTENTIONAL-START */}'', ''<MockB />'',
                   ''{/* DEMO-INTENTIONAL-END */}'', ''export default App;'']))
            (b_content block_adjacent_1)"
proof -
  have ex: "extractProtectedBlocks getDefaultConfig (join_lines demo_adjacent)
              = [block_adjacent_1, block_adjacent_2]"
    by (simp add: demo_adjacent_def block_adjacent_1_def block_adjacent_2_def eval_defs)
  have sd: "split_lines (join_lines demo_adjacent) = demo_adjacent"
    by (simp add: demo_adjacent_def js_def)
  have sm: "split_lines (join_lines main_adjacent) = main_adjacent"
    by (simp add: main_adjacent_def js_def)
  let ?r1 = "[js ''import React;'', js ''{/* DEMO-INTENTIONAL-START */}'', js ''<MockA />'',
              js ''{/* DEMO-INTENTIONAL-END */}'', js ''export default App;'']"
  let ?r2 = "[js ''import React;'', js ''{/* DEMO-INTENTIONAL-START */}'', js ''<MockA />'',
              js ''{/* DEMO-INTENTIONAL-START */}'', js ''<MockB />'',
              js ''{/* DEMO-INTENTIONAL-END */}'', js ''export default App;'']"
  have b1: "merge_block getDefaultConfig demo_adjacent (main_adjacent, []) block_adjacent_1
      = Some (?r1, [])"
    by (simp add: demo_adjacent_def main_adjacent_def block_adjacent_1_def eval_defs)
  have b2: "merge_block getDefaultConfig demo_adjacent (?r1, []) block_adjacent_2
      = Some (?r2, [])"
    by (simp add: demo_adjacent_def block_adjacent_2_def eval_defs)
  have m: "smartMergeFile getDefaultConfig (join_lines main_adjacent)
             (Some (join_lines demo_adjacent))
       = Some \<lparr>m_content = join_lines (map js
                  [''import React;'', ''{/* DEMO-INTENTIONAL-START */}'', ''<MockA />'',
                   ''{/* DEMO-INTENTIONAL-START */}'', ''<MockB />'',
                   ''{/* DEMO-INTENTIONAL-END */}'', ''export default App;'']),
                m_warnings = []\<rparr>"
    by (simp add: smartMergeFile_def intelligentMerge_def ex sd sm b1 b2 del: merge_block.simps)
  have n: "\<not> str_includes (join_lines (map js
                  [''import React;'', ''{/* DEMO-INTENTIONAL-START */}'', ''<MockA />'',
                   ''{/* DEMO-INTENTIONAL-START */}'', ''<MockB />'',
                   ''{/* DEMO-INTENTIONAL-END */}'', ''export default App;'']))
            (b_content block_adjacent_1)"
    by (simp add: block_adjacent_1_def js_def startsWith_def)
  from ex m n show ?thesis by blast
qed


end
